theory Spec2Isabelle
  imports Main "HOL-Library.AList" "HOL-Library.Multiset" "HOL-Library.Char_ord"
    "HOL-Library.List_Lexorder"
begin

section \<open>Data model of the Go server (main.go)\<close>

text \<open>
  Go strings are byte sequences and are modelled as \<^typ>\<open>string\<close> (lists of 8-bit
  characters); with \<open>Char_ord\<close> and \<open>List_Lexorder\<close> the order \<open><\<close> on them is the
  bytewise lexicographic order that Go's string comparison uses. Go's \<open>int\<close> is modelled
  as \<^typ>\<open>int\<close>: the counters below count violations of a report held in memory and stay
  far from the 64-bit bound. A \<open>*int\<close> is an \<^typ>\<open>int option\<close>.
\<close>

record Violation =
  DocumentURI :: string
  Referrer :: string
  BlockedURI :: string
  BlockedOrigin :: string
  EffectiveDirective :: string
  ViolatedDirective :: string
  OriginalPolicy :: string
  Disposition :: string
  StatusCode :: "int option"
  SourceFile :: string
  LineNumber :: "int option"
  ColumnNumber :: "int option"
  Sample :: string

record ReportPageResult =
  URL :: string
  Status :: "int option"
  OK :: bool
  Error :: string
  DurationMs :: int
  Violations :: "Violation list"

record ReportTotals =
  TotalPages :: int
  TotalViolations :: int

datatype cfg_value = CfgStr string | CfgInt int | CfgBool bool

text \<open>
  A Go map is modelled as an association list with pairwise distinct keys, kept in
  insertion order: \<^const>\<open>map_of\<close> is the lookup and \<^const>\<open>AList.update\<close> the
  assignment \<open>m[k] = v\<close>. The order of the list is not observable in Go; the order in
  which \<open>range\<close> visits a map is a separate input of the model (see \<open>rangeOrder\<close>).
\<close>

record Report =
  GeneratedAt :: string
  Config :: "(string \<times> cfg_value) list"
  Totals :: ReportTotals
  Results :: "ReportPageResult list"
  BaseURL :: string

text \<open>
  \<open>GroupedViolation\<close>: the fields \<open>EffectiveDirective\<close> and \<open>BlockedOrigin\<close> of the Go
  struct are named \<open>GEffectiveDirective\<close> and \<open>GBlockedOrigin\<close> here, since a record
  field is a constant and \<open>Violation\<close> already has fields of these names.
\<close>

record GroupedViolation =
  Key :: string
  GEffectiveDirective :: string
  GBlockedOrigin :: string
  Count :: int
  Pages :: "(string \<times> Violation list) list"

record MergedGroup =
  Group :: GroupedViolation
  Browsers :: "string list"

record BrowserReport =
  Name :: string
  BReport :: Report
  Groups :: "GroupedViolation list"
  Warns :: "GroupedViolation list"

section \<open>Map iteration order\<close>

text \<open>
  \<open>for k, v := range m\<close> visits every entry of a Go map exactly once, in an order the
  language leaves unspecified and the runtime randomises. A function that iterates over
  a map therefore takes the visiting order as an argument \<open>rng\<close>: it receives the
  entries and returns them in the order of the visit. \<open>rangeOrder rng\<close> says that
  \<open>rng\<close> is such an order: it returns the same entries, each exactly once.
\<close>

definition rangeOrder :: "('a list \<Rightarrow> 'a list) \<Rightarrow> bool" where
  "rangeOrder rng \<longleftrightarrow> (\<forall>xs. mset (rng xs) = mset xs)"

section \<open>The in-place sort of \<open>groupViolations\<close> and \<open>groupViolationsMulti\<close>\<close>

text \<open>
  Both functions sort a slice with the same pair of nested loops:
  \<^verbatim>\<open>
  for i := 0; i < len(xs); i++ {
      for j := i + 1; j < len(xs); j++ {
          if prec(xs[j], xs[i]) { xs[i], xs[j] = xs[j], xs[i] }
      }
  }
  \<close>
  where \<open>prec (xs[j], xs[i])\<close> is \<open>xs[j].Count > xs[i].Count\<close> for the groups and
  \<open>names[j] < names[i]\<close> for the engine names. The indices stay below \<open>len(xs)\<close>, so
  no access is out of range.
\<close>

definition swapIfPrec :: "('a \<Rightarrow> 'a \<Rightarrow> bool) \<Rightarrow> nat \<Rightarrow> nat \<Rightarrow> 'a list \<Rightarrow> 'a list" where
  "swapIfPrec prec i j xs =
     (if prec (xs ! j) (xs ! i) then xs[i := xs ! j, j := xs ! i] else xs)"

definition innerLoop :: "('a \<Rightarrow> 'a \<Rightarrow> bool) \<Rightarrow> nat \<Rightarrow> 'a list \<Rightarrow> 'a list" where
  "innerLoop prec i xs = fold (swapIfPrec prec i) [Suc i..<length xs] xs"

definition exchangeSort :: "('a \<Rightarrow> 'a \<Rightarrow> bool) \<Rightarrow> 'a list \<Rightarrow> 'a list" where
  "exchangeSort prec xs = fold (innerLoop prec) [0..<length xs] xs"

section \<open>Grouping violations (main.go, \<open>groupViolations\<close>)\<close>

definition groupKey :: "Violation \<Rightarrow> string" where
  "groupKey v = EffectiveDirective v @ '' -> '' @ BlockedOrigin v"

text \<open>The body of the inner loop: one violation \<open>v\<close> of the page \<open>url\<close>.\<close>

definition addViolation ::
  "string \<Rightarrow> Violation \<Rightarrow> (string \<times> GroupedViolation) list \<Rightarrow> (string \<times> GroupedViolation) list"
where
  "addViolation url v groups =
     (let key = groupKey v;
          g = (case map_of groups key of
                 Some g \<Rightarrow> g
               | None \<Rightarrow> \<lparr>Key = key, GEffectiveDirective = EffectiveDirective v,
                          GBlockedOrigin = BlockedOrigin v, Count = 0, Pages = []\<rparr>);
          vs = (case map_of (Pages g) url of Some vs \<Rightarrow> vs | None \<Rightarrow> [])
      in AList.update key
           (g\<lparr>Count := Count g + 1, Pages := AList.update url (vs @ [v]) (Pages g)\<rparr>) groups)"

definition collectGroups :: "ReportPageResult list \<Rightarrow> (string \<times> GroupedViolation) list" where
  "collectGroups results =
     fold (\<lambda>r groups. fold (addViolation (URL r)) (Violations r) groups) results []"

definition groupViolations ::
  "((string \<times> GroupedViolation) list \<Rightarrow> (string \<times> GroupedViolation) list) \<Rightarrow>
     ReportPageResult list \<Rightarrow> GroupedViolation list"
where
  "groupViolations rng results =
     exchangeSort (\<lambda>a b. Count a > Count b) (map snd (rng (collectGroups results)))"

text \<open>The sum of the lengths of the violation lists of a group's pages.\<close>

definition pagesTotal :: "GroupedViolation \<Rightarrow> nat" where
  "pagesTotal g = sum_list (map (\<lambda>p. length (snd p)) (Pages g))"

text \<open>
  \<open>groupOK\<close> is the invariant of a group while the map is built: the counter agrees
  with the page lists, and the page list is a proper map (no URL twice).
\<close>

definition groupOK :: "GroupedViolation \<Rightarrow> bool" where
  "groupOK g \<longleftrightarrow> Count g = int (pagesTotal g) \<and> distinct (map fst (Pages g))"

section \<open>String functions of the Go library\<close>

text \<open>
  \<open>strings.TrimSpace\<close>, \<open>strings.ToLower\<close>, \<open>strings.HasPrefix\<close> and
  \<open>strings.Contains\<close> on byte strings. White space is the ASCII white space
  (tab, line feed, vertical tab, form feed, carriage return, space) and lower-casing
  maps \<open>A\<close>..\<open>Z\<close> to \<open>a\<close>..\<open>z\<close> (adding \<open>'a' - 'A' = 32\<close> to such a byte sets
  its bit 5, which is clear in \<open>A\<close>..\<open>Z\<close>): on ASCII text the model is the library; the
  multi-byte white space and letters of Unicode are left as they are.
\<close>

definition isSpace :: "char \<Rightarrow> bool" where
  "isSpace c \<longleftrightarrow> c \<in> set [CHR 0x09, CHR 0x0A, CHR 0x0B, CHR 0x0C, CHR 0x0D, CHR '' '']"

definition trimSpace :: "string \<Rightarrow> string" where
  "trimSpace s = rev (dropWhile isSpace (rev (dropWhile isSpace s)))"

definition toLowerChar :: "char \<Rightarrow> char" where
  "toLowerChar c =
     (if CHR ''A'' \<le> c \<and> c \<le> CHR ''Z''
      then (case c of Char b0 b1 b2 b3 b4 b5 b6 b7 \<Rightarrow> Char b0 b1 b2 b3 b4 True b6 b7)
      else c)"

definition toLower :: "string \<Rightarrow> string" where
  "toLower s = map toLowerChar s"

definition hasPrefix :: "string \<Rightarrow> string \<Rightarrow> bool" where
  "hasPrefix s p \<longleftrightarrow> take (length p) s = p"

fun containsStr :: "string \<Rightarrow> string \<Rightarrow> bool" where
  "containsStr [] sub = (sub = [])"
| "containsStr (c # cs) sub = (hasPrefix (c # cs) sub \<or> containsStr cs sub)"

section \<open>Filtering by disposition (main.go, \<open>isDisposition\<close>)\<close>

definition isDisposition :: "string \<Rightarrow> string \<Rightarrow> bool" where
  "isDisposition actual want =
     (let a = toLower (trimSpace actual)
      in if want = ''report-only'' then containsStr a ''report''
         else a = '''' \<or> a = ''enforce'')"

text \<open>The first loop of \<open>groupViolationsByDisposition\<close>: the pages that keep a violation.\<close>

definition keepDisposition :: "string \<Rightarrow> Violation list \<Rightarrow> Violation list" where
  "keepDisposition disposition vs = filter (\<lambda>v. isDisposition (Disposition v) disposition) vs"

definition filterByDisposition :: "ReportPageResult list \<Rightarrow> string \<Rightarrow> ReportPageResult list" where
  "filterByDisposition results disposition =
     filter (\<lambda>nr. length (Violations nr) > 0)
       (map (\<lambda>r. r\<lparr>Violations := keepDisposition disposition (Violations r)\<rparr>) results)"

definition groupViolationsByDisposition ::
  "((string \<times> GroupedViolation) list \<Rightarrow> (string \<times> GroupedViolation) list) \<Rightarrow>
     ReportPageResult list \<Rightarrow> string \<Rightarrow> GroupedViolation list"
where
  "groupViolationsByDisposition rng results disposition =
     groupViolations rng (filterByDisposition results disposition)"

section \<open>Merging engines (main.go, \<open>groupViolationsMulti\<close>)\<close>

text \<open>
  \<open>groupBrowsers\<close> maps a group key to a set of engine names (a
  \<open>map[string]struct{}\<close>), modelled as a list without duplicates.
  \<open>addBrowser\<close> is \<open>groupBrowsers[key][name] = struct{}{}\<close>, creating the inner
  set when the key is new.
\<close>

definition addBrowser ::
  "string \<Rightarrow> string \<Rightarrow> (string \<times> string list) list \<Rightarrow> (string \<times> string list) list"
where
  "addBrowser key name groupBrowsers =
     (let names = (case map_of groupBrowsers key of Some ns \<Rightarrow> ns | None \<Rightarrow> [])
      in AList.update key (if name \<in> set names then names else names @ [name]) groupBrowsers)"

text \<open>One page result \<open>r\<close> of the engine \<open>name\<close>; the state is \<open>(all, groupBrowsers)\<close>.\<close>

definition multiPage ::
  "string \<Rightarrow> ReportPageResult \<Rightarrow>
     ReportPageResult list \<times> (string \<times> string list) list \<Rightarrow>
     ReportPageResult list \<times> (string \<times> string list) list"
where
  "multiPage name r st =
     (fst st @ [r], fold (\<lambda>v. addBrowser (groupKey v) name) (Violations r) (snd st))"

definition multiPageByDisposition ::
  "string \<Rightarrow> string \<Rightarrow> ReportPageResult \<Rightarrow>
     ReportPageResult list \<times> (string \<times> string list) list \<Rightarrow>
     ReportPageResult list \<times> (string \<times> string list) list"
where
  "multiPageByDisposition disposition name r st =
     (let kept = keepDisposition disposition (Violations r)
      in (if length kept > 0 then fst st @ [r\<lparr>Violations := kept\<rparr>] else fst st,
          fold (\<lambda>v. addBrowser (groupKey v) name) kept (snd st)))"

text \<open>The names of one group: read out of the set in the order \<open>rng\<close>, then sorted.\<close>

definition sortedNames ::
  "(string list \<Rightarrow> string list) \<Rightarrow> (string \<times> string list) list \<Rightarrow> string \<Rightarrow> string list"
where
  "sortedNames rng groupBrowsers key =
     exchangeSort (\<lambda>a b. a < b)
       (rng (case map_of groupBrowsers key of Some ns \<Rightarrow> ns | None \<Rightarrow> []))"

definition mergeGroups ::
  "(string list \<Rightarrow> string list) \<Rightarrow> (string \<times> string list) list \<Rightarrow>
     GroupedViolation list \<Rightarrow> MergedGroup list"
where
  "mergeGroups rng groupBrowsers grouped =
     map (\<lambda>g. \<lparr>Group = g, Browsers = sortedNames rng groupBrowsers (Key g)\<rparr>) grouped"

text \<open>
  The parameter \<open>browsers\<close> of the two functions (the reports of the engines) hides
  the global list of engine names of the same name.
\<close>

definition groupViolationsMulti ::
  "((string \<times> GroupedViolation) list \<Rightarrow> (string \<times> GroupedViolation) list) \<Rightarrow>
     (string list \<Rightarrow> string list) \<Rightarrow> BrowserReport list \<Rightarrow> MergedGroup list"
where
  "groupViolationsMulti rngG rngN browsers =
     (let st = fold (\<lambda>b st. fold (multiPage (Name b)) (Results (BReport b)) st) browsers ([], [])
      in mergeGroups rngN (snd st) (groupViolations rngG (fst st)))"

definition groupViolationsMultiByDisposition ::
  "((string \<times> GroupedViolation) list \<Rightarrow> (string \<times> GroupedViolation) list) \<Rightarrow>
     (string list \<Rightarrow> string list) \<Rightarrow> BrowserReport list \<Rightarrow> string \<Rightarrow> MergedGroup list"
where
  "groupViolationsMultiByDisposition rngG rngN browsers disposition =
     (let st = fold (\<lambda>b st. fold (multiPageByDisposition disposition (Name b))
                                (Results (BReport b)) st) browsers ([], [])
      in mergeGroups rngN (snd st) (groupViolations rngG (fst st)))"

definition namesOK :: "(string \<times> string list) list \<Rightarrow> bool" where
  "namesOK groupBrowsers \<longleftrightarrow> list_all (\<lambda>p. distinct (snd p)) groupBrowsers"

section \<open>Sample inputs\<close>

definition sampleViolation :: "string \<Rightarrow> string \<Rightarrow> string \<Rightarrow> Violation" where
  "sampleViolation directive origin disp =
     \<lparr>DocumentURI = '''', Referrer = '''', BlockedURI = origin, BlockedOrigin = origin,
      EffectiveDirective = directive, ViolatedDirective = directive, OriginalPolicy = '''',
      Disposition = disp, StatusCode = None, SourceFile = '''', LineNumber = None,
      ColumnNumber = None, Sample = ''''\<rparr>"

definition samplePage :: "string \<Rightarrow> Violation list \<Rightarrow> ReportPageResult" where
  "samplePage url vs =
     \<lparr>URL = url, Status = Some 200, OK = True, Error = '''', DurationMs = 0, Violations = vs\<rparr>"

definition tiePages :: "ReportPageResult list" where
  "tiePages = [samplePage ''https://example.org/''
     [sampleViolation ''img-src'' ''https://a.example'' ''enforce'',
      sampleViolation ''script-src'' ''https://b.example'' ''enforce'']]"

definition scenarioD :: "ReportPageResult list" where
  "scenarioD =
     (let v = sampleViolation ''img-src'' ''https://cdn.example'' ''enforce''
      in [samplePage ''https://example.org/one'' [v, v, v],
          samplePage ''https://example.org/two'' [v, v]])"

definition unsortedPages :: "ReportPageResult list" where
  "unsortedPages =
     [samplePage ''https://example.org/''
        [sampleViolation ''img-src'' ''https://a.example'' ''enforce'',
         sampleViolation ''script-src'' ''https://b.example'' ''enforce''],
      samplePage ''https://example.org/two''
        [sampleViolation ''script-src'' ''https://b.example'' ''enforce'']]"

definition sampleReport :: "ReportPageResult list \<Rightarrow> Report" where
  "sampleReport rs =
     \<lparr>GeneratedAt = ''2024-01-01T00:00:00Z'', Config = [],
      Totals = \<lparr>TotalPages = int (length rs),
                TotalViolations = int (length (concat (map Violations rs)))\<rparr>,
      Results = rs, BaseURL = ''''\<rparr>"

definition sampleBrowsers :: "BrowserReport list" where
  "sampleBrowsers =
     (let rs = [samplePage ''https://example.org/''
                  [sampleViolation ''img-src'' ''https://cdn.example'' ''enforce'']]
      in map (\<lambda>n. \<lparr>Name = n, BReport = sampleReport rs, Groups = [], Warns = []\<rparr>)
           [''webkit'', ''chromium'', ''firefox''])"

definition dispPages :: "ReportPageResult list" where
  "dispPages =
     [samplePage ''https://example.org/''
        [sampleViolation ''img-src'' ''https://a.example'' ''enforce'',
         sampleViolation ''img-src'' ''https://b.example'' '' Report-Only'',
         sampleViolation ''img-src'' ''https://c.example'' ''''],
      samplePage ''https://example.org/two''
        [sampleViolation ''script-src'' ''https://b.example'' ''report-only'']]"

section \<open>Configuration (main.go, \<open>parseConfig\<close>)\<close>

record CSPConfig =
  WaitUntil :: string
  NavTimeoutMs :: int
  SettleWaitMs :: int
  Concurrency :: int
  BetweenURLMs :: int
  UserAgent :: string
  AcceptLanguage :: string
  Browser :: string

definition defaultConfig :: CSPConfig where
  "defaultConfig =
     \<lparr>WaitUntil = ''networkidle'', NavTimeoutMs = 45000, SettleWaitMs = 3000,
      Concurrency = 1, BetweenURLMs = 600,
      UserAgent = ''Mozilla/5.0 (X11; Linux x86_64) AppleWebKit/537.36 (KHTML, like Gecko) Chrome/120.0.0.0 Safari/537.36'',
      AcceptLanguage = ''en-US,en;q=0.9'', Browser = ''chromium''\<rparr>"

text \<open>
  \<open>json.Unmarshal(raw, &cfg)\<close> is the library's: it fails on text that is not a JSON
  object with members of the declared types, and otherwise overwrites the fields of
  \<open>cfg\<close> whose key is present (and not \<open>null\<close>) and leaves the other fields as they
  are. The decoder is an argument \<open>decode\<close> of the model: \<open>None\<close> is the failure,
  \<open>Some j\<close> carries the members that are present. An integer member that is decoded
  fits Go's \<open>int\<close>.
\<close>

record ConfigJSON =
  jsonWaitUntil :: "string option"
  jsonNavTimeoutMs :: "int option"
  jsonSettleWaitMs :: "int option"
  jsonConcurrency :: "int option"
  jsonBetweenUrlMs :: "int option"
  jsonUserAgent :: "string option"
  jsonAcceptLanguage :: "string option"
  jsonBrowser :: "string option"

definition orKeep :: "'a option \<Rightarrow> 'a \<Rightarrow> 'a" where
  "orKeep member old = (case member of Some v \<Rightarrow> v | None \<Rightarrow> old)"

definition unmarshalInto :: "ConfigJSON \<Rightarrow> CSPConfig \<Rightarrow> CSPConfig" where
  "unmarshalInto j cfg =
     \<lparr>WaitUntil = orKeep (jsonWaitUntil j) (WaitUntil cfg),
      NavTimeoutMs = orKeep (jsonNavTimeoutMs j) (NavTimeoutMs cfg),
      SettleWaitMs = orKeep (jsonSettleWaitMs j) (SettleWaitMs cfg),
      Concurrency = orKeep (jsonConcurrency j) (Concurrency cfg),
      BetweenURLMs = orKeep (jsonBetweenUrlMs j) (BetweenURLMs cfg),
      UserAgent = orKeep (jsonUserAgent j) (UserAgent cfg),
      AcceptLanguage = orKeep (jsonAcceptLanguage j) (AcceptLanguage cfg),
      Browser = orKeep (jsonBrowser j) (Browser cfg)\<rparr>"

datatype config_error = UnmarshalError

text \<open>
  The eight repairs that follow the decoding. Each \<open>if\<close> of the source tests one field
  and assigns that field only, so their sequence is this record of eight conditionals.
\<close>

definition repairConfig :: "CSPConfig \<Rightarrow> CSPConfig" where
  "repairConfig cfg =
     \<lparr>WaitUntil = (if WaitUntil cfg = '''' then ''domcontentloaded'' else WaitUntil cfg),
      NavTimeoutMs = (if NavTimeoutMs cfg \<le> 0 then 30000 else NavTimeoutMs cfg),
      SettleWaitMs = (if SettleWaitMs cfg < 0 then 0 else SettleWaitMs cfg),
      Concurrency = (if Concurrency cfg \<le> 0 then 1 else Concurrency cfg),
      BetweenURLMs = (if BetweenURLMs cfg < 0 then 0 else BetweenURLMs cfg),
      UserAgent = (if UserAgent cfg = '''' then UserAgent defaultConfig else UserAgent cfg),
      AcceptLanguage =
        (if AcceptLanguage cfg = '''' then AcceptLanguage defaultConfig else AcceptLanguage cfg),
      Browser = (if Browser cfg = '''' then Browser defaultConfig else Browser cfg)\<rparr>"

text \<open>
  On a decoding error Go returns the error together with the partly filled \<open>cfg\<close>;
  every caller drops that value (it keeps \<open>defaultConfig()\<close>), so the model returns
  the error alone.
\<close>

definition parseConfig :: "(string \<Rightarrow> ConfigJSON option) \<Rightarrow> string \<Rightarrow> config_error + CSPConfig" where
  "parseConfig decode raw =
     (if trimSpace raw = '''' then Inr defaultConfig
      else case decode raw of
             None \<Rightarrow> Inl UnmarshalError
           | Some j \<Rightarrow> Inr (repairConfig (unmarshalInto j defaultConfig)))"

definition noMembers :: ConfigJSON where
  "noMembers = \<lparr>jsonWaitUntil = None, jsonNavTimeoutMs = None, jsonSettleWaitMs = None,
     jsonConcurrency = None, jsonBetweenUrlMs = None, jsonUserAgent = None,
     jsonAcceptLanguage = None, jsonBrowser = None\<rparr>"

definition invalidProfileJSON :: string where
  \<open>invalidProfileJSON =
     ''{"waitUntil": "", "navTimeoutMs": 0, "settleWaitMs": -1, "concurrency": 0, "betweenUrlMs": -7, "userAgent": "", "acceptLanguage": ""}''\<close>

definition validProfileJSON :: string where
  \<open>validProfileJSON = ''{"waitUntil": "load", "navTimeoutMs": 1000, "settleWaitMs": 0}''\<close>

definition sampleDecode :: "string \<Rightarrow> ConfigJSON option" where
  \<open>sampleDecode raw =
     (if raw = ''{"navTimeoutMs": -5}'' then Some (noMembers\<lparr>jsonNavTimeoutMs := Some (- 5)\<rparr>)
      else if raw = validProfileJSON
      then Some (noMembers\<lparr>jsonWaitUntil := Some ''load'', jsonNavTimeoutMs := Some 1000,
             jsonSettleWaitMs := Some 0\<rparr>)
      else if raw = invalidProfileJSON
      then Some (noMembers\<lparr>jsonWaitUntil := Some '''', jsonNavTimeoutMs := Some 0,
             jsonSettleWaitMs := Some (- 1), jsonConcurrency := Some 0,
             jsonBetweenUrlMs := Some (- 7), jsonUserAgent := Some '''',
             jsonAcceptLanguage := Some ''''\<rparr>)
      else None)\<close>

section \<open>URL lists (main.go, \<open>parseURLList\<close> and \<open>normalizeURL\<close>)\<close>

text \<open>
  The fields of \<open>url.URL\<close>. \<open>url.Parse\<close> and the method \<open>String\<close> of a URL belong
  to Go's \<open>net/url\<close>; they are the arguments \<open>urlParse\<close> (\<open>None\<close> for an error)
  and \<open>urlString\<close> of the model.
\<close>

record GoURL =
  Scheme :: string
  Opaque :: string
  User :: "string option"
  Host :: string
  Path :: string
  RawPath :: string
  OmitHost :: bool
  ForceQuery :: bool
  RawQuery :: string
  Fragment :: string
  RawFragment :: string

definition normalizeURL ::
  "(string \<Rightarrow> GoURL option) \<Rightarrow> (GoURL \<Rightarrow> string) \<Rightarrow> string \<Rightarrow> string option"
where
  "normalizeURL urlParse urlString raw =
     (case urlParse raw of
        None \<Rightarrow> None
      | Some u \<Rightarrow>
          if Scheme u = '''' \<or> Host u = '''' then None
          else Some (urlString (if Path u = '''' then u\<lparr>Path := ''/''\<rparr> else u)))"

text \<open>\<open>strings.Index(s, c)\<close> for a one-byte string \<open>c\<close>; \<open>None\<close> is Go's \<open>-1\<close>.\<close>

fun indexByte :: "string \<Rightarrow> char \<Rightarrow> nat option" where
  "indexByte [] c = None"
| "indexByte (x # xs) c =
     (if x = c then Some 0 else (case indexByte xs c of None \<Rightarrow> None | Some i \<Rightarrow> Some (Suc i)))"

text \<open>\<open>strings.Split(text, "\n")\<close>.\<close>

fun splitLines :: "string \<Rightarrow> string list" where
  "splitLines [] = [[]]"
| "splitLines (c # cs) =
     (if c = CHR 0x0A then [] # splitLines cs
      else (case splitLines cs of l # ls \<Rightarrow> (c # l) # ls | [] \<Rightarrow> [[c]]))"

text \<open>The body of the loop of \<open>parseURLList\<close>; \<open>None\<close> when the line adds no URL.\<close>

definition parseURLLine ::
  "(string \<Rightarrow> GoURL option) \<Rightarrow> (GoURL \<Rightarrow> string) \<Rightarrow> string \<Rightarrow> string option"
where
  "parseURLLine urlParse urlString raw =
     (let line = trimSpace raw in
      if line = '''' then None
      else if hasPrefix line ''#'' then None
      else
        let line = (case indexByte line CHR ''#'' of
                      Some idx \<Rightarrow> trimSpace (take idx line)
                    | None \<Rightarrow> line) in
        if line = '''' then None
        else if hasPrefix line ''http://'' \<or> hasPrefix line ''https://''
             then normalizeURL urlParse urlString line
             else None)"

definition parseURLList ::
  "(string \<Rightarrow> GoURL option) \<Rightarrow> (GoURL \<Rightarrow> string) \<Rightarrow> string \<Rightarrow> string list"
where
  "parseURLList urlParse urlString text =
     concat (map (\<lambda>raw. case parseURLLine urlParse urlString raw of
                           None \<Rightarrow> [] | Some u \<Rightarrow> [u])
                 (splitLines text))"

text \<open>
  A stand-in for \<open>net/url\<close> on plain URLs \<open>scheme://host/path\<close> (no user, query,
  fragment or escape), for the concrete instances: the scheme is the text before the
  first colon, the host runs up to the first slash after \<open>//\<close>, the path is the rest.
\<close>

definition plainParse :: "string \<Rightarrow> GoURL option" where
  "plainParse raw =
     (let scheme = takeWhile (\<lambda>c. c \<noteq> CHR '':'') raw;
          rest = drop (Suc (length scheme)) raw
      in if scheme = '''' \<or> \<not> hasPrefix rest ''//'' then None
         else Some \<lparr>Scheme = toLower scheme, Opaque = '''', User = None,
                    Host = takeWhile (\<lambda>c. c \<noteq> CHR ''/'') (drop 2 rest),
                    Path = dropWhile (\<lambda>c. c \<noteq> CHR ''/'') (drop 2 rest),
                    RawPath = '''', OmitHost = False, ForceQuery = False, RawQuery = '''',
                    Fragment = '''', RawFragment = ''''\<rparr>)"

definition plainString :: "GoURL \<Rightarrow> string" where
  "plainString u = Scheme u @ ''://'' @ Host u @ Path u"

definition scenarioB :: string where
  "scenarioB = ''# comment'' @ [CHR 0x0A] @ ''https://example.org'' @ [CHR 0x0A]
     @ ''ftp://example.org'' @ [CHR 0x0A] @ '''' @ [CHR 0x0A] @ ''not-a-url''"

section \<open>Running the probes (main.go, \<open>runCSPCheck\<close>)\<close>

text \<open>
  The error of \<open>cmd.Wait()\<close>: an \<open>*exec.ExitError\<close>, which carries the \<open>ExitCode()\<close>
  of the process (\<open>-1\<close> when a signal ended it), or any other error.
  \<open>*os.ProcessState\<close> is \<open>nil\<close> or gives its \<open>ExitCode()\<close>.
\<close>

datatype wait_error = ExitError int | OtherWaitError

definition exitCodeFromErr :: "wait_error option \<Rightarrow> int" where
  "exitCodeFromErr err =
     (case err of None \<Rightarrow> 0 | Some (ExitError code) \<Rightarrow> code | Some OtherWaitError \<Rightarrow> 1)"

definition exitCodeFromState :: "int option \<Rightarrow> wait_error option \<Rightarrow> int" where
  "exitCodeFromState state err =
     (if err \<noteq> None then exitCodeFromErr err
      else case state of None \<Rightarrow> 0 | Some code \<Rightarrow> code)"

text \<open>
  What the operating system and the probe do is an input of the model. For one engine:
  whether \<open>cmd.StderrPipe()\<close> and \<open>cmd.Start()\<close> fail, the error of \<open>cmd.Wait()\<close>,
  the process state, whether \<open>os.Stat\<close> and \<open>os.ReadFile\<close> of the report file fail,
  and the report that \<open>json.Unmarshal\<close> decodes from the file (\<open>None\<close>: it fails).
\<close>

record probe_outcome =
  pipeFails :: bool
  startFails :: bool
  waitErr :: "wait_error option"
  processState :: "int option"
  statFails :: bool
  readFails :: bool
  decoded :: "Report option"

text \<open>
  For the whole run: whether \<open>os.MkdirTemp\<close> and the \<open>os.WriteFile\<close> of the URL list
  fail, the outcome of the probe of each engine, and the formatted time of the report.
\<close>

record world =
  mkdirFails :: bool
  writeFails :: bool
  probe :: "string \<Rightarrow> probe_outcome"
  now :: string

datatype run_error =
    MkdirTempError | WriteFileError | StderrPipeError | StartError
  | NodeFailed string | ReadFileError | UnmarshalJSONError

record MultiReport =
  MGeneratedAt :: string
  MConfig :: "(string \<times> cfg_value) list"
  MBrowsers :: "(string \<times> Report) list"

definition browsers :: "string list" where
  "browsers = [''chromium'', ''firefox'', ''webkit'']"

text \<open>
  The loop over the engines, with the loop state \<open>browserReports\<close> and \<open>maxExit\<close>.
  A result \<open>Inl (err, code)\<close> is the return \<open>MultiReport{}, code, err\<close>.
\<close>

fun runBrowsers ::
  "(string \<Rightarrow> probe_outcome) \<Rightarrow> string list \<Rightarrow> (string \<times> Report) list \<Rightarrow> int \<Rightarrow>
     (run_error \<times> int) + ((string \<times> Report) list \<times> int)"
where
  "runBrowsers pr [] browserReports maxExit = Inr (browserReports, maxExit)"
| "runBrowsers pr (browser # rest) browserReports maxExit =
     (let out = pr browser in
      if pipeFails out then Inl (StderrPipeError, 0)
      else if startFails out then Inl (StartError, 0)
      else
        let exitCode = exitCodeFromState (processState out) (waitErr out);
            maxExit = (if exitCode > maxExit then exitCode else maxExit)
        in if waitErr out \<noteq> None \<and> statFails out then Inl (NodeFailed browser, exitCode)
           else if readFails out then Inl (ReadFileError, exitCode)
           else (case decoded out of
                   None \<Rightarrow> Inl (UnmarshalJSONError, exitCode)
                 | Some report \<Rightarrow>
                     runBrowsers pr rest (AList.update browser report browserReports) maxExit))"

definition runCSPCheck ::
  "world \<Rightarrow> string list \<Rightarrow> CSPConfig \<Rightarrow> (run_error \<times> int) + (MultiReport \<times> int)"
where
  "runCSPCheck w urls cfg =
     (if mkdirFails w then Inl (MkdirTempError, 0)
      else if writeFails w then Inl (WriteFileError, 0)
      else (case runBrowsers (probe w) browsers [] 0 of
              Inl e \<Rightarrow> Inl e
            | Inr (browserReports, maxExit) \<Rightarrow>
                Inr (\<lparr>MGeneratedAt = now w,
                      MConfig = [(''waitUntil'', CfgStr (WaitUntil cfg)),
                                 (''navTimeoutMs'', CfgInt (NavTimeoutMs cfg)),
                                 (''settleWaitMs'', CfgInt (SettleWaitMs cfg)),
                                 (''concurrency'', CfgInt (Concurrency cfg)),
                                 (''betweenUrlMs'', CfgInt (BetweenURLMs cfg)),
                                 (''userAgent'', CfgStr (UserAgent cfg)),
                                 (''acceptLanguage'', CfgStr (AcceptLanguage cfg))],
                      MBrowsers = browserReports\<rparr>, maxExit)))"

text \<open>The exit code of one engine's pass, as \<open>runCSPCheck\<close> computes it.\<close>

definition engineExit :: "probe_outcome \<Rightarrow> int" where
  "engineExit out = exitCodeFromState (processState out) (waitErr out)"

text \<open>
  The hard failure of the specification: the probe does not start, or it ends with an
  error and no output file is present.
\<close>

definition hardFailure :: "probe_outcome \<Rightarrow> bool" where
  "hardFailure out \<longleftrightarrow> startFails out \<or> (waitErr out \<noteq> None \<and> statFails out)"

text \<open>Every way in which one engine's pass makes \<open>runCSPCheck\<close> return an error.\<close>

definition probeFails :: "probe_outcome \<Rightarrow> bool" where
  "probeFails out \<longleftrightarrow>
     pipeFails out \<or> startFails out \<or> (waitErr out \<noteq> None \<and> statFails out) \<or>
     readFails out \<or> decoded out = None"

definition cleanProbe :: probe_outcome where
  "cleanProbe = \<lparr>pipeFails = False, startFails = False, waitErr = None,
     processState = Some 0, statFails = False, readFails = False,
     decoded = Some (sampleReport [])\<rparr>"

definition sampleWorld :: "(string \<Rightarrow> probe_outcome) \<Rightarrow> world" where
  "sampleWorld pr = \<lparr>mkdirFails = False, writeFails = False, probe = pr,
     now = ''2024-01-01T00:00:00Z''\<rparr>"

text \<open>Firefox finds violations (exit code 1) and writes its report; the others are clean.\<close>

definition softWorld :: world where
  "softWorld = sampleWorld (\<lambda>b. if b = ''firefox''
       then cleanProbe\<lparr>waitErr := Some (ExitError 1), processState := Some 1\<rparr>
       else cleanProbe)"

text \<open>Every probe exits with code zero and writes no report file.\<close>

definition silentWorld :: world where
  "silentWorld = sampleWorld (\<lambda>b. cleanProbe\<lparr>statFails := True, readFails := True,
       decoded := None\<rparr>)"

text \<open>Every probe writes its report and is then ended by a signal (exit code \<open>-1\<close>).\<close>

definition killedWorld :: world where
  "killedWorld = sampleWorld (\<lambda>b. cleanProbe\<lparr>waitErr := Some (ExitError (- 1)),
       processState := Some (- 1)\<rparr>)"

text \<open>
  Scenario C: Chromium exits 0, Firefox exits 1 with a report, WebKit does not start.
\<close>

definition startFailWorld :: world where
  "startFailWorld = sampleWorld (\<lambda>b. if b = ''firefox''
       then cleanProbe\<lparr>waitErr := Some (ExitError 1), processState := Some 1\<rparr>
       else if b = ''webkit'' then cleanProbe\<lparr>startFails := True\<rparr>
       else cleanProbe)"

section \<open>Per-page deduplication in the probe (csp-check.mjs, \<open>checkUrl\<close>)\<close>

text \<open>
  A field of a violation event is a string or a number, or \<open>null\<close>/\<open>undefined\<close>
  (\<open>None\<close>). \<open>x || null\<close> turns the empty string into \<open>null\<close>; \<open>x ?? null\<close> keeps
  every value that is present. JavaScript strings are modelled like Go's, and
  \<open>toLowerCase\<close> by \<^const>\<open>toLower\<close>. The events come from the three listeners of
  \<open>checkUrl\<close>, which all build objects of this shape.
\<close>

record raw_violation =
  documentURI :: "string option"
  referrer :: "string option"
  blockedURI :: "string option"
  effectiveDirective :: "string option"
  violatedDirective :: "string option"
  originalPolicy :: "string option"
  disposition :: "string option"
  statusCode :: "int option"
  sourceFile :: "string option"
  lineNumber :: "int option"
  columnNumber :: "int option"
  sample :: "string option"

record violation = raw_violation +
  blockedOrigin :: "string option"

definition orNull :: "string option \<Rightarrow> string option" where
  "orNull x = (case x of None \<Rightarrow> None | Some s \<Rightarrow> if s = '''' then None else Some s)"

text \<open>
  The function \<open>blockedOrigin\<close>. \<open>new URL(u).origin\<close> is the platform's: the argument
  \<open>urlOrigin\<close> gives the origin, or \<open>None\<close> when the constructor throws.
\<close>

definition blockedOriginOf :: "(string \<Rightarrow> string option) \<Rightarrow> string option \<Rightarrow> string option" where
  "blockedOriginOf urlOrigin uri =
     (case uri of
        None \<Rightarrow> None
      | Some u \<Rightarrow> if u = '''' then None
                  else (case urlOrigin u of Some origin \<Rightarrow> Some origin | None \<Rightarrow> Some u))"

definition normalizeViolation :: "(string \<Rightarrow> string option) \<Rightarrow> raw_violation \<Rightarrow> violation" where
  "normalizeViolation urlOrigin v =
     \<lparr>documentURI = orNull (documentURI v),
      referrer = orNull (referrer v),
      blockedURI = orNull (blockedURI v),
      effectiveDirective = orNull (effectiveDirective v),
      violatedDirective = orNull (violatedDirective v),
      originalPolicy = orNull (originalPolicy v),
      disposition = orNull (disposition v),
      statusCode = statusCode v,
      sourceFile = orNull (sourceFile v),
      lineNumber = lineNumber v,
      columnNumber = columnNumber v,
      sample = orNull (sample v),
      blockedOrigin = blockedOriginOf urlOrigin (orNull (blockedURI v))\<rparr>"

text \<open>
  \<open>Array.prototype.join\<close> writes \<open>null\<close> as the empty string, a string as itself and
  an integer in decimal.
\<close>

fun natDigits :: "nat \<Rightarrow> string" where
  "natDigits n =
     (if n < 10 then [''0123456789'' ! n] else natDigits (n div 10) @ [''0123456789'' ! (n mod 10)])"

definition jsNumber :: "int option \<Rightarrow> string" where
  "jsNumber x =
     (case x of
        None \<Rightarrow> ''''
      | Some i \<Rightarrow> if i < 0 then CHR ''-'' # natDigits (nat (- i)) else natDigits (nat i))"

definition jsString :: "string option \<Rightarrow> string" where
  "jsString x = (case x of None \<Rightarrow> '''' | Some s \<Rightarrow> s)"

definition joinWith :: "string \<Rightarrow> string list \<Rightarrow> string" where
  "joinWith sep xs = (case xs of [] \<Rightarrow> [] | x # rest \<Rightarrow> x @ concat (map (\<lambda>y. sep @ y) rest))"

definition violationKey :: "violation \<Rightarrow> string" where
  "violationKey v =
     joinWith ''|'' [jsString (effectiveDirective v), jsString (blockedURI v),
                     jsString (sourceFile v), jsNumber (lineNumber v),
                     jsNumber (columnNumber v)]"

definition normalizeDisposition :: "string option \<Rightarrow> string" where
  "normalizeDisposition d =
     (let val = toLower (jsString d)
      in if containsStr val ''report'' then ''report-only''
         else if val = ''enforce'' then ''enforce''
         else '''')"

definition mergeViolation :: "violation \<Rightarrow> violation \<Rightarrow> violation" where
  "mergeViolation a b =
     (let da = normalizeDisposition (disposition a);
          db = normalizeDisposition (disposition b)
      in if da = ''enforce'' \<or> db = ''enforce'' then (if da = ''enforce'' then a else b)
         else if da = ''report-only'' \<or> db = ''report-only''
              then (if da = ''report-only'' then a else b)
         else a)"

text \<open>
  The loop over the normalised events. \<open>uniq\<close> is a JavaScript \<open>Map\<close>, which keeps
  its keys in insertion order: an association list, \<open>set\<close> being \<^const>\<open>AList.update\<close>.
\<close>

definition dedupStep :: "violation \<Rightarrow> (string \<times> violation) list \<Rightarrow> (string \<times> violation) list" where
  "dedupStep v uniq =
     (let key = violationKey v
      in case map_of uniq key of
           None \<Rightarrow> AList.update key v uniq
         | Some existing \<Rightarrow> AList.update key (mergeViolation existing v) uniq)"

text \<open>The \<open>violations\<close> field of the result of \<open>checkUrl\<close>, from the events collected.\<close>

definition dedupViolations :: "(string \<Rightarrow> string option) \<Rightarrow> raw_violation list \<Rightarrow> violation list" where
  "dedupViolations urlOrigin events =
     map snd (fold dedupStep (map (normalizeViolation urlOrigin) events) [])"

text \<open>The tuple by which the specification identifies a violation on a page.\<close>

definition violationTuple ::
  "violation \<Rightarrow> string option \<times> string option \<times> string option \<times> int option \<times> int option"
where
  "violationTuple v =
     (effectiveDirective v, blockedURI v, sourceFile v, lineNumber v, columnNumber v)"

text \<open>The certainty of a disposition: \<open>enforce\<close> over \<open>report-only\<close> over unknown.\<close>

definition dispRank :: "violation \<Rightarrow> nat" where
  "dispRank v =
     (if normalizeDisposition (disposition v) = ''enforce'' then 2
      else if normalizeDisposition (disposition v) = ''report-only'' then 1 else 0)"

definition uniqInv :: "violation list \<Rightarrow> (string \<times> violation) list \<Rightarrow> bool" where
  "uniqInv seen uniq \<longleftrightarrow>
     distinct (map fst uniq) \<and>
     list_all (\<lambda>p. violationKey (snd p) = fst p \<and> snd p \<in> set seen \<and>
                 list_all (\<lambda>r. violationKey r \<noteq> fst p \<or> dispRank r \<le> dispRank (snd p)) seen) uniq \<and>
     list_all (\<lambda>r. violationKey r \<in> fst ` set uniq) seen"

definition sampleEvent :: "string \<Rightarrow> string \<Rightarrow> raw_violation" where
  "sampleEvent uri disp =
     \<lparr>documentURI = Some ''https://example.org/'', referrer = None, blockedURI = Some uri,
      effectiveDirective = Some ''img-src'', violatedDirective = Some ''img-src'',
      originalPolicy = Some ''img-src 'self' '', disposition = Some disp, statusCode = Some 200,
      sourceFile = Some ''https://example.org/app.js'', lineNumber = Some 12,
      columnNumber = Some 7, sample = None\<rparr>"

definition mixedEvents :: "raw_violation list" where
  "mixedEvents =
     [sampleEvent ''https://cdn.example/a.png'' ''report'',
      sampleEvent ''https://cdn.example/a.png'' ''enforce'',
      sampleEvent ''https://cdn.example/b.png'' '''',
      sampleEvent ''https://cdn.example/b.png'' ''report'']"

section \<open>Properties of the sort\<close>

lemma length_swapIfPrec [simp]: "length (swapIfPrec prec i j xs) = length xs"
  by (simp add: swapIfPrec_def)

lemma mset_swapIfPrec:
  "i < length xs \<Longrightarrow> j < length xs \<Longrightarrow> mset (swapIfPrec prec i j xs) = mset xs"
  by (simp add: swapIfPrec_def mset_swap)

text \<open>Partial inner loop: positions Suc i ..< m have been visited.\<close>

lemma fold_upt_Suc:
  "a \<le> m \<Longrightarrow> fold f [a..<Suc m] xs = f m (fold f [a..<m] xs)"
  by simp

lemma length_inner_fold [simp]:
  "length (fold (swapIfPrec prec i) [a..<m] xs) = length xs"
  by (induction m) auto

lemma mset_inner_fold:
  "m \<le> length xs \<Longrightarrow> i < a \<Longrightarrow> mset (fold (swapIfPrec prec i) [a..<m] xs) = mset xs"
proof (induction m)
  case 0
  then show ?case by simp
next
  case (Suc m)
  show ?case
  proof (cases "a \<le> m")
    case True
    with Suc show ?thesis by (simp add: mset_swapIfPrec)
  next
    case False
    then show ?thesis by simp
  qed
qed

lemma take_swapIfPrec:
  "i < j \<Longrightarrow> take i (swapIfPrec prec i j xs) = take i xs"
  by (simp add: swapIfPrec_def)

lemma take_inner_fold:
  "i < a \<Longrightarrow> take i (fold (swapIfPrec prec i) [a..<m] xs) = take i xs"
proof (induction m)
  case 0
  then show ?case by simp
next
  case (Suc m)
  then show ?case by (cases "a \<le> m") (simp_all add: take_swapIfPrec)
qed

lemma mset_drop_swapIfPrec:
  assumes "i < j" "j < length xs"
  shows "mset (drop i (swapIfPrec prec i j xs)) = mset (drop i xs)"
proof -
  have "mset (take i (swapIfPrec prec i j xs)) + mset (drop i (swapIfPrec prec i j xs))
      = mset (take i xs) + mset (drop i xs)"
    using assms mset_swapIfPrec[of i xs j prec]
    by (metis append_take_drop_id less_trans mset_append)
  then show ?thesis
    using assms by (simp add: take_swapIfPrec)
qed

lemma mset_drop_inner_fold:
  "m \<le> length xs \<Longrightarrow> i < a \<Longrightarrow>
   mset (drop i (fold (swapIfPrec prec i) [a..<m] xs)) = mset (drop i xs)"
proof (induction m)
  case 0
  then show ?case by simp
next
  case (Suc m)
  then show ?case by (cases "a \<le> m") (simp_all add: mset_drop_swapIfPrec)
qed

lemma head_min_inner_fold:
  fixes k :: "'a \<Rightarrow> 'b::linorder"
  assumes bef: "\<And>x y. prec x y \<longleftrightarrow> k x < k y"
  shows "m \<le> length xs \<Longrightarrow>
     \<forall>p. i < p \<and> p < m \<longrightarrow>
        k (fold (swapIfPrec prec i) [Suc i..<m] xs ! i)
          \<le> k (fold (swapIfPrec prec i) [Suc i..<m] xs ! p)"
proof (induction m)
  case 0
  then show ?case by simp
next
  case (Suc m)
  show ?case
  proof (cases "Suc i \<le> m")
    case False
    then show ?thesis by auto
  next
    case True
    define ys where "ys = fold (swapIfPrec prec i) [Suc i..<m] xs"
    have len: "length ys = length xs" by (simp add: ys_def)
    have IH: "\<forall>p. i < p \<and> p < m \<longrightarrow> k (ys ! i) \<le> k (ys ! p)"
      using Suc by (simp add: ys_def)
    have step: "fold (swapIfPrec prec i) [Suc i..<Suc m] xs = swapIfPrec prec i m ys"
      using True by (simp add: ys_def)
    have im: "i < m" "m < length ys" using True Suc.prems len by auto
    show ?thesis
      unfolding step
    proof (intro allI impI)
      fix p assume p: "i < p \<and> p < Suc m"
      show "k (swapIfPrec prec i m ys ! i) \<le> k (swapIfPrec prec i m ys ! p)"
      proof (cases "prec (ys ! m) (ys ! i)")
        case True
        then have lt: "k (ys ! m) < k (ys ! i)" using bef by simp
        show ?thesis
        proof (cases "p = m")
          case True
          then show ?thesis using lt im \<open>prec (ys ! m) (ys ! i)\<close>
            by (simp add: swapIfPrec_def)
        next
          case False
          then have "p < m" using p by simp
          then have "k (ys ! i) \<le> k (ys ! p)" using IH p by simp
          then show ?thesis using lt im p \<open>p < m\<close> \<open>prec (ys ! m) (ys ! i)\<close>
            by (simp add: swapIfPrec_def)
        qed
      next
        case False
        then have ge: "k (ys ! i) \<le> k (ys ! m)" using bef by (simp add: not_less)
        show ?thesis
        proof (cases "p = m")
          case True
          then show ?thesis using ge False by (simp add: swapIfPrec_def)
        next
          case F2: False
          then have "p < m" using p by simp
          then show ?thesis using IH p False by (simp add: swapIfPrec_def)
        qed
      qed
    qed
  qed
qed


lemma length_innerLoop [simp]: "length (innerLoop prec i xs) = length xs"
  by (simp add: innerLoop_def)

lemma mset_innerLoop: "mset (innerLoop prec i xs) = mset xs"
  by (simp add: innerLoop_def mset_inner_fold)

lemma take_innerLoop: "take i (innerLoop prec i xs) = take i xs"
  by (simp add: innerLoop_def take_inner_fold)

lemma mset_drop_innerLoop: "mset (drop i (innerLoop prec i xs)) = mset (drop i xs)"
  by (simp add: innerLoop_def mset_drop_inner_fold)

lemma head_min_innerLoop:
  fixes k :: "'a \<Rightarrow> 'b::linorder"
  assumes "\<And>x y. prec x y \<longleftrightarrow> k x < k y" and "i < p" and "p < length xs"
  shows "k (innerLoop prec i xs ! i) \<le> k (innerLoop prec i xs ! p)"
  using head_min_inner_fold[of prec k "length xs" xs i, OF assms(1)] assms(2,3)
  by (simp add: innerLoop_def)

lemma length_outer_fold [simp]: "length (fold (innerLoop prec) [0..<i] xs) = length xs"
  by (induction i) auto

lemma mset_outer_fold: "mset (fold (innerLoop prec) [0..<i] xs) = mset xs"
  by (induction i) (auto simp: mset_innerLoop)

lemma nth_drop_member: "i \<le> q \<Longrightarrow> q < length ys \<Longrightarrow> ys ! q \<in> set (drop i ys)"
proof -
  assume a: "i \<le> q" "q < length ys"
  then have "q - i < length (drop i ys)" by simp
  then have "drop i ys ! (q - i) \<in> set (drop i ys)" by (rule nth_mem)
  moreover have "drop i ys ! (q - i) = ys ! q" using a by simp
  ultimately show ?thesis by simp
qed

lemma prefix_min_outer_fold:
  fixes k :: "'a \<Rightarrow> 'b::linorder"
  assumes bef: "\<And>x y. prec x y \<longleftrightarrow> k x < k y"
  shows "i \<le> length xs \<Longrightarrow>
     \<forall>p q. p < i \<and> p < q \<and> q < length xs \<longrightarrow>
        k (fold (innerLoop prec) [0..<i] xs ! p) \<le> k (fold (innerLoop prec) [0..<i] xs ! q)"
proof (induction i)
  case 0
  then show ?case by simp
next
  case (Suc i)
  define ys where "ys = fold (innerLoop prec) [0..<i] xs"
  define zs where "zs = innerLoop prec i ys"
  have len: "length ys = length xs" "length zs = length xs" by (simp_all add: ys_def zs_def)
  have IH: "\<forall>p q. p < i \<and> p < q \<and> q < length xs \<longrightarrow> k (ys ! p) \<le> k (ys ! q)"
    using Suc by (simp add: ys_def)
  have step: "fold (innerLoop prec) [0..<Suc i] xs = zs"
    by (simp add: ys_def zs_def)
  have pre: "\<And>p. p < i \<Longrightarrow> zs ! p = ys ! p"
    using take_innerLoop[of i prec ys] by (metis nth_take zs_def)
  have tail: "set (drop i zs) = set (drop i ys)"
    using mset_drop_innerLoop[of i prec ys] by (metis mset_eq_setD zs_def)
  show ?case
    unfolding step
  proof (intro allI impI)
    fix p q assume pq: "p < Suc i \<and> p < q \<and> q < length xs"
    show "k (zs ! p) \<le> k (zs ! q)"
    proof (cases "p = i")
      case True
      then show ?thesis
        using head_min_innerLoop[of prec k i q ys, OF bef] pq len by (simp add: zs_def)
    next
      case False
      then have p: "p < i" using pq by simp
      show ?thesis
      proof (cases "q < i")
        case True
        then show ?thesis using IH p pq pre by simp
      next
        case False
        then have "zs ! q \<in> set (drop i zs)"
          using pq len by (simp add: nth_drop_member)
        then have "zs ! q \<in> set (drop i ys)" using tail by simp
        then obtain r where r: "r < length (drop i ys)" "drop i ys ! r = zs ! q"
          by (auto simp: in_set_conv_nth)
        then have "ys ! (i + r) = zs ! q" "i + r < length xs"
          using len by auto
        moreover have "p < i + r" using p by simp
        ultimately have "k (ys ! p) \<le> k (zs ! q)" using IH p by metis
        then show ?thesis using pre[OF p] by simp
      qed
    qed
  qed
qed

lemma exchangeSort_sorted_key:
  fixes k :: "'a \<Rightarrow> 'b::linorder"
  assumes "\<And>x y. prec x y \<longleftrightarrow> k x < k y"
  shows "sorted (map k (exchangeSort prec xs))"
  using prefix_min_outer_fold[of prec k "length xs" xs, OF assms]
  by (simp add: exchangeSort_def sorted_iff_nth_mono_less)

lemma mset_exchangeSort: "mset (exchangeSort prec xs) = mset xs"
  by (simp add: exchangeSort_def mset_outer_fold)

lemma set_exchangeSort: "set (exchangeSort prec xs) = set xs"
  using mset_exchangeSort by (metis set_mset_mset)

lemma length_exchangeSort: "length (exchangeSort prec xs) = length xs"
  by (simp add: exchangeSort_def)

lemma distinct_exchangeSort: "distinct (exchangeSort prec xs) = distinct xs"
  using mset_exchangeSort by (metis mset_eq_imp_distinct_iff)

section \<open>Properties of \<open>groupViolations\<close>\<close>

lemma pages_update_total:
  "sum_list (map (\<lambda>p. length (snd p))
      (AList.update u ((case map_of ps u of Some vs \<Rightarrow> vs | None \<Rightarrow> []) @ [v]) ps))
   = Suc (sum_list (map (\<lambda>p. length (snd p)) ps))"
  by (induction ps) auto

lemma set_update_cases: "x \<in> set (AList.update k v al) \<Longrightarrow> x = (k, v) \<or> x \<in> set al"
  by (induction al) (auto split: if_splits)

lemma addViolation_groupOK:
  assumes "\<forall>p\<in>set groups. groupOK (snd p)"
  shows "\<forall>p\<in>set (addViolation url v groups). groupOK (snd p)"
proof
  fix p assume p: "p \<in> set (addViolation url v groups)"
  define g where "g = (case map_of groups (groupKey v) of
                 Some g \<Rightarrow> g
               | None \<Rightarrow> \<lparr>Key = groupKey v, GEffectiveDirective = EffectiveDirective v,
                          GBlockedOrigin = BlockedOrigin v, Count = 0, Pages = []\<rparr>)"
  define g' where "g' = g\<lparr>Count := Count g + 1,
     Pages := AList.update url ((case map_of (Pages g) url of Some vs \<Rightarrow> vs | None \<Rightarrow> []) @ [v]) (Pages g)\<rparr>"
  have add: "addViolation url v groups = AList.update (groupKey v) g' groups"
    by (simp add: addViolation_def g_def g'_def Let_def)
  have g: "groupOK g"
  proof (cases "map_of groups (groupKey v)")
    case None
    then show ?thesis by (simp add: g_def groupOK_def pagesTotal_def)
  next
    case (Some h)
    then have "(groupKey v, h) \<in> set groups" by (rule map_of_SomeD)
    then show ?thesis using assms Some by (auto simp: g_def)
  qed
  have g': "groupOK g'"
    using g by (simp add: g'_def groupOK_def pagesTotal_def pages_update_total distinct_update)
  from p add have "p = (groupKey v, g') \<or> p \<in> set groups"
    by (auto dest: set_update_cases)
  then show "groupOK (snd p)" using g' assms by auto
qed

lemma fold_addViolation_groupOK:
  "\<forall>p\<in>set groups. groupOK (snd p) \<Longrightarrow>
   \<forall>p\<in>set (fold (addViolation url) vs groups). groupOK (snd p)"
proof (induction vs arbitrary: groups)
  case Nil
  then show ?case by simp
next
  case (Cons v vs)
  show ?case using Cons.IH[OF addViolation_groupOK[OF Cons.prems]] by simp
qed

lemma fold_pages_groupOK:
  "\<forall>p\<in>set groups. groupOK (snd p) \<Longrightarrow>
   \<forall>p\<in>set (fold (\<lambda>r groups. fold (addViolation (URL r)) (Violations r) groups) results groups).
      groupOK (snd p)"
proof (induction results arbitrary: groups)
  case Nil
  then show ?case by simp
next
  case (Cons r rs)
  show ?case using Cons.IH[OF fold_addViolation_groupOK[OF Cons.prems]] by simp
qed

lemma collectGroups_groupOK: "\<forall>p\<in>set (collectGroups results). groupOK (snd p)"
  unfolding collectGroups_def by (rule fold_pages_groupOK) simp

lemma rangeOrder_set: "rangeOrder rng \<Longrightarrow> set (rng xs) = set xs"
  unfolding rangeOrder_def by (metis set_mset_mset)

lemmas eval_defs = groupViolations_def collectGroups_def addViolation_def groupKey_def
  exchangeSort_def innerLoop_def swapIfPrec_def Let_def sampleViolation_def samplePage_def
  pagesTotal_def upt_rec

text \<open>
  Claim C5. For every list of page results and every visiting order of the map, the
  sequence returned by \<open>groupViolations\<close> is sorted by non-increasing count: for all
  positions \<open>i < j\<close> of the output, the group at \<open>i\<close> has a \<open>Count\<close> greater than or
  equal to that of the group at \<open>j\<close>.
\<close>

theorem groupViolations_sorted_by_count:
  assumes "i < j" and "j < length (groupViolations rng results)"
  shows "Count (groupViolations rng results ! j) \<le> Count (groupViolations rng results ! i)"
proof -
  let ?out = "groupViolations rng results"
  have "sorted (map (\<lambda>g. - Count g) ?out)"
    unfolding groupViolations_def by (rule exchangeSort_sorted_key) auto
  then have "map (\<lambda>g. - Count g) ?out ! i \<le> map (\<lambda>g. - Count g) ?out ! j"
    using assms by (simp add: sorted_iff_nth_mono_less)
  then show ?thesis using assms by simp
qed

theorem groupViolations_sorted_by_count_witness:
  "(0::nat) < 1 \<and> 1 < length (groupViolations (\<lambda>xs. xs) unsortedPages) \<and>
   map Count (groupViolations (\<lambda>xs. xs) unsortedPages) = [2, 1] \<and>
   Count (groupViolations (\<lambda>xs. xs) unsortedPages ! 1)
     \<le> Count (groupViolations (\<lambda>xs. xs) unsortedPages ! 0)"
proof -
  have len: "1 < length (groupViolations (\<lambda>xs. xs) unsortedPages)"
    by (simp add: eval_defs unsortedPages_def)
  have counts: "map Count (groupViolations (\<lambda>xs. xs) unsortedPages) = [2, 1]"
    by (simp add: eval_defs unsortedPages_def)
  show ?thesis
    using groupViolations_sorted_by_count [of 0 1 "\<lambda>xs. xs" unsortedPages, OF _ len] len counts
    by simp
qed

text \<open>
  Claim C6. For every list of page results and every visiting order of the map, every
  group returned by \<open>groupViolations\<close> has a \<open>Count\<close> equal to the sum, over the page
  URLs of its \<open>Pages\<close> map, of the length of that page's violation list; each URL occurs
  once in \<open>Pages\<close>. The witness is the scenario of two pages with three and two
  violations of one key: one group, of count five, with two page entries.
\<close>

theorem groupViolations_count_is_pages_total:
  assumes "rangeOrder rng"
  shows "\<forall>g\<in>set (groupViolations rng results).
           Count g = int (pagesTotal g) \<and> distinct (map fst (Pages g))"
proof
  fix g assume "g \<in> set (groupViolations rng results)"
  then have "g \<in> snd ` set (rng (collectGroups results))"
    by (simp add: groupViolations_def set_exchangeSort)
  then have "g \<in> snd ` set (collectGroups results)"
    using rangeOrder_set[OF assms] by simp
  then have "groupOK g" using collectGroups_groupOK by auto
  then show "Count g = int (pagesTotal g) \<and> distinct (map fst (Pages g))"
    by (simp add: groupOK_def)
qed

theorem groupViolations_count_is_pages_total_witness:
  "rangeOrder (\<lambda>xs :: (string \<times> GroupedViolation) list. xs) \<and>
   map (\<lambda>g. (Key g, Count g, map (\<lambda>p. (fst p, length (snd p))) (Pages g)))
       (groupViolations (\<lambda>xs. xs) scenarioD)
     = [(''img-src -> https://cdn.example'', 5,
         [(''https://example.org/one'', 3), (''https://example.org/two'', 2)])] \<and>
   list_all (\<lambda>g. Count g = int (pagesTotal g) \<and> distinct (map fst (Pages g)))
      (groupViolations (\<lambda>xs. xs) scenarioD)"
proof -
  have r: "rangeOrder (\<lambda>xs :: (string \<times> GroupedViolation) list. xs)"
    by (simp add: rangeOrder_def)
  have e: "map (\<lambda>g. (Key g, Count g, map (\<lambda>p. (fst p, length (snd p))) (Pages g)))
       (groupViolations (\<lambda>xs. xs) scenarioD)
     = [(''img-src -> https://cdn.example'', 5,
         [(''https://example.org/one'', 3), (''https://example.org/two'', 2)])]"
    by (simp add: eval_defs scenarioD_def)
  show ?thesis
    using groupViolations_count_is_pages_total [OF r, of scenarioD] r e
    by (simp add: list_all_iff)
qed

text \<open>
  What does not depend on the visiting order of the map: the groups returned, as a
  multiset, and the sequence of their counts. Only the positions of groups of equal
  count can differ between two runs.
\<close>

lemma groupViolations_range_independent:
  assumes "rangeOrder r1" and "rangeOrder r2"
  shows "mset (groupViolations r1 results) = mset (groupViolations r2 results) \<and>
         map Count (groupViolations r1 results) = map Count (groupViolations r2 results)"
proof -
  let ?a = "groupViolations r1 results" and ?b = "groupViolations r2 results"
  have m: "mset ?a = mset ?b"
    using assms by (simp add: groupViolations_def mset_exchangeSort rangeOrder_def)
  have sa: "sorted (map (\<lambda>g. - Count g) ?a)" and sb: "sorted (map (\<lambda>g. - Count g) ?b)"
    unfolding groupViolations_def by (rule exchangeSort_sorted_key, simp)+
  have "mset (map (\<lambda>g. - Count g) ?a) = mset (map (\<lambda>g. - Count g) ?b)"
    using m by (metis mset_map)
  then have "sort (map (\<lambda>g. - Count g) ?b) = map (\<lambda>g. - Count g) ?a"
    using sa by (rule properties_for_sort)
  moreover have "sort (map (\<lambda>g. - Count g) ?b) = map (\<lambda>g. - Count g) ?b"
    using sb by (simp add: sorted_sort_id)
  ultimately have "map (\<lambda>g. - Count g) ?a = map (\<lambda>g. - Count g) ?b" by simp
  then have "map uminus (map (\<lambda>g. - Count g) ?a) = map uminus (map (\<lambda>g. - Count g) ?b)"
    by (rule arg_cong)
  then have "map Count ?a = map Count ?b" by (simp add: comp_def)
  with m show ?thesis by simp
qed

text \<open>
  Claim C1 (two runs on one input return the same sequence) does not hold of the Go
  code. The groups are read out of the map with \<open>range\<close>, whose order Go randomises,
  and the sort only swaps on a strictly greater count, so groups of equal count stay in
  the order of the visit. On a page with one \<open>img-src\<close> and one \<open>script-src\<close>
  violation, the two visiting orders of the two-entry map give two different results.
\<close>

theorem groupViolations_order_depends_on_range:
  "rangeOrder (\<lambda>xs :: (string \<times> GroupedViolation) list. xs) \<and>
   rangeOrder (rev :: (string \<times> GroupedViolation) list \<Rightarrow> (string \<times> GroupedViolation) list) \<and>
   map Key (groupViolations (\<lambda>xs. xs) tiePages)
     = [''img-src -> https://a.example'', ''script-src -> https://b.example''] \<and>
   map Key (groupViolations rev tiePages)
     = [''script-src -> https://b.example'', ''img-src -> https://a.example''] \<and>
   groupViolations (\<lambda>xs. xs) tiePages \<noteq> groupViolations rev tiePages"
proof -
  have a: "map Key (groupViolations (\<lambda>xs. xs) tiePages)
     = [''img-src -> https://a.example'', ''script-src -> https://b.example'']"
    by (simp add: eval_defs tiePages_def)
  have b: "map Key (groupViolations rev tiePages)
     = [''script-src -> https://b.example'', ''img-src -> https://a.example'']"
    by (simp add: eval_defs tiePages_def)
  have "map Key (groupViolations (\<lambda>xs. xs) tiePages) \<noteq> map Key (groupViolations rev tiePages)"
    unfolding a b by simp
  then have "groupViolations (\<lambda>xs. xs) tiePages \<noteq> groupViolations rev tiePages"
    by metis
  then show ?thesis using a b by (simp add: rangeOrder_def)
qed

section \<open>Properties of \<open>groupViolationsMulti\<close>\<close>


lemma addBrowser_namesOK: "namesOK gb \<Longrightarrow> namesOK (addBrowser key name gb)"
proof -
  assume ok: "namesOK gb"
  define names where "names = (case map_of gb key of Some ns \<Rightarrow> ns | None \<Rightarrow> [])"
  have "distinct names"
  proof (cases "map_of gb key")
    case None
    then show ?thesis by (simp add: names_def)
  next
    case (Some ns)
    then have "(key, ns) \<in> set gb" by (rule map_of_SomeD)
    then show ?thesis using ok Some by (auto simp: names_def namesOK_def list_all_iff)
  qed
  then have d: "distinct (if name \<in> set names then names else names @ [name])" by simp
  have "\<forall>p\<in>set (addBrowser key name gb). distinct (snd p)"
  proof
    fix p assume "p \<in> set (addBrowser key name gb)"
    then have "p = (key, if name \<in> set names then names else names @ [name]) \<or> p \<in> set gb"
      unfolding addBrowser_def Let_def names_def by (rule set_update_cases)
    then show "distinct (snd p)" using d ok by (auto simp: namesOK_def list_all_iff)
  qed
  then show ?thesis by (simp add: namesOK_def list_all_iff)
qed

lemma fold_addBrowser_namesOK:
  "namesOK gb \<Longrightarrow> namesOK (fold (\<lambda>v. addBrowser (f v) name) vs gb)"
  by (induction vs arbitrary: gb) (simp_all add: addBrowser_namesOK)

lemma multiPage_namesOK: "namesOK (snd st) \<Longrightarrow> namesOK (snd (multiPage name r st))"
  by (simp add: multiPage_def fold_addBrowser_namesOK)

lemma multiPageByDisposition_namesOK:
  "namesOK (snd st) \<Longrightarrow> namesOK (snd (multiPageByDisposition d name r st))"
  by (simp add: multiPageByDisposition_def Let_def fold_addBrowser_namesOK)

lemma fold_pages_namesOK:
  assumes "\<And>r st. namesOK (snd st) \<Longrightarrow> namesOK (snd (step r st))"
  shows "namesOK (snd st) \<Longrightarrow> namesOK (snd (fold step rs st))"
  by (induction rs arbitrary: st) (simp_all add: assms)

lemma fold_browsers_namesOK:
  assumes "\<And>n r st. namesOK (snd st) \<Longrightarrow> namesOK (snd (step n r st))"
  shows "namesOK (snd st) \<Longrightarrow>
     namesOK (snd (fold (\<lambda>b st. fold (step (Name b)) (Results (BReport b)) st) bs st))"
proof (induction bs arbitrary: st)
  case Nil
  then show ?case by simp
next
  case (Cons b bs)
  have "namesOK (snd (fold (step (Name b)) (Results (BReport b)) st))"
    using Cons.prems by (rule fold_pages_namesOK[rotated]) (rule assms)
  then show ?case using Cons.IH by simp
qed

lemma sortedNames_strict:
  assumes "rangeOrder rng" and "namesOK gb"
  shows "sorted_wrt (<) (sortedNames rng gb key)"
proof -
  define names where "names = (case map_of gb key of Some ns \<Rightarrow> ns | None \<Rightarrow> [])"
  have "distinct names"
  proof (cases "map_of gb key")
    case None
    then show ?thesis by (simp add: names_def)
  next
    case (Some ns)
    then have "(key, ns) \<in> set gb" by (rule map_of_SomeD)
    then show ?thesis using assms(2) Some by (auto simp: names_def namesOK_def list_all_iff)
  qed
  moreover have "mset (rng names) = mset names"
    using assms(1) by (simp add: rangeOrder_def)
  ultimately have "distinct (rng names)"
    by (metis mset_eq_imp_distinct_iff)
  then have d: "distinct (exchangeSort (\<lambda>a b. a < b) (rng names))"
    by (simp add: distinct_exchangeSort)
  have "sorted (map (\<lambda>x. x) (exchangeSort (\<lambda>a b. a < b) (rng names)))"
    by (rule exchangeSort_sorted_key) simp
  then have "sorted (exchangeSort (\<lambda>a b. a < b) (rng names))" by simp
  with d show ?thesis
    by (simp add: sortedNames_def names_def strict_sorted_iff)
qed

lemma mergeGroups_strict:
  assumes "rangeOrder rng" and "namesOK gb"
  shows "\<forall>m\<in>set (mergeGroups rng gb grouped). sorted_wrt (<) (Browsers m) \<and> distinct (Browsers m)"
  using sortedNames_strict[OF assms]
  by (auto simp: mergeGroups_def strict_sorted_iff)

lemmas multi_defs = groupViolationsMulti_def groupViolationsMultiByDisposition_def
  multiPage_def multiPageByDisposition_def addBrowser_def sortedNames_def mergeGroups_def
  keepDisposition_def isDisposition_def toLower_def toLowerChar_def trimSpace_def isSpace_def
  hasPrefix_def sampleReport_def sampleBrowsers_def

text \<open>
  Claim C7. Every merged group returned by \<open>groupViolationsMulti\<close> and by
  \<open>groupViolationsMultiByDisposition\<close> has a \<open>Browsers\<close> list that is strictly
  ascending in the bytewise lexicographic order of strings, and therefore holds no engine
  name twice. This holds for every order in which the name set of a group is visited.
\<close>

theorem merged_browsers_strictly_ascending:
  assumes "rangeOrder rngN"
  shows "(\<forall>m\<in>set (groupViolationsMulti rngG rngN reports).
            sorted_wrt (<) (Browsers m) \<and> distinct (Browsers m)) \<and>
         (\<forall>m\<in>set (groupViolationsMultiByDisposition rngG rngN reports want).
            sorted_wrt (<) (Browsers m) \<and> distinct (Browsers m))"
proof
  have e: "namesOK (snd (([], []) :: ReportPageResult list \<times> (string \<times> string list) list))"
    by (simp add: namesOK_def)
  have "namesOK (snd (fold (\<lambda>b st. fold (multiPage (Name b)) (Results (BReport b)) st)
           reports ([], [])))"
    using e by (rule fold_browsers_namesOK[rotated]) (rule multiPage_namesOK)
  then show "\<forall>m\<in>set (groupViolationsMulti rngG rngN reports).
            sorted_wrt (<) (Browsers m) \<and> distinct (Browsers m)"
    unfolding groupViolationsMulti_def Let_def by (rule mergeGroups_strict[OF assms])
  have "namesOK (snd (fold (\<lambda>b st. fold (multiPageByDisposition want (Name b))
           (Results (BReport b)) st) reports ([], [])))"
    using e by (rule fold_browsers_namesOK[rotated]) (rule multiPageByDisposition_namesOK)
  then show "\<forall>m\<in>set (groupViolationsMultiByDisposition rngG rngN reports want).
            sorted_wrt (<) (Browsers m) \<and> distinct (Browsers m)"
    unfolding groupViolationsMultiByDisposition_def Let_def by (rule mergeGroups_strict[OF assms])
qed

theorem merged_browsers_strictly_ascending_witness:
  "rangeOrder (rev :: string list \<Rightarrow> string list) \<and>
   map Browsers (groupViolationsMulti (\<lambda>xs. xs) rev sampleBrowsers)
     = [[''chromium'', ''firefox'', ''webkit'']] \<and>
   list_all (\<lambda>m. sorted_wrt (<) (Browsers m) \<and> distinct (Browsers m))
     (groupViolationsMulti (\<lambda>xs. xs) rev sampleBrowsers) \<and>
   list_all (\<lambda>m. sorted_wrt (<) (Browsers m) \<and> distinct (Browsers m))
     (groupViolationsMultiByDisposition (\<lambda>xs. xs) rev sampleBrowsers ''enforce'')"
proof -
  have r: "rangeOrder (rev :: string list \<Rightarrow> string list)"
    by (simp add: rangeOrder_def)
  have e: "map Browsers (groupViolationsMulti (\<lambda>xs. xs) rev sampleBrowsers)
     = [[''chromium'', ''firefox'', ''webkit'']]"
    by (simp add: eval_defs multi_defs)
  show ?thesis
    using merged_browsers_strictly_ascending [OF r, of "\<lambda>xs. xs" sampleBrowsers "''enforce''"] r e
    by (simp add: list_all_iff)
qed

section \<open>Properties of the disposition filter\<close>

lemma isDisposition_recognized:
  assumes "toLower (trimSpace d) \<in> {'''', ''enforce'', ''report-only''}"
  shows "isDisposition d ''enforce'' \<noteq> isDisposition d ''report-only''"
proof -
  consider "toLower (trimSpace d) = ''''" | "toLower (trimSpace d) = ''enforce''"
    | "toLower (trimSpace d) = ''report-only''"
    using assms by auto
  then show ?thesis
    by cases (simp_all add: isDisposition_def hasPrefix_def)
qed

lemma mset_concat_drop_empty:
  "mset (concat (map Violations (filter (\<lambda>nr. length (Violations nr) > 0) ps)))
     = mset (concat (map Violations ps))"
  by (induction ps) auto

lemma mset_filterByDisposition:
  "mset (concat (map Violations (filterByDisposition results d)))
     = mset (concat (map (\<lambda>r. keepDisposition d (Violations r)) results))"
  unfolding filterByDisposition_def mset_concat_drop_empty
  by (simp add: comp_def)

lemma keep_partition:
  assumes "\<forall>v\<in>set vs. isDisposition (Disposition v) ''enforce''
              \<noteq> isDisposition (Disposition v) ''report-only''"
  shows "mset (keepDisposition ''enforce'' vs) + mset (keepDisposition ''report-only'' vs) = mset vs"
  using assms by (induction vs) (auto simp: keepDisposition_def)

lemma pages_partition:
  assumes "\<forall>r\<in>set results. \<forall>v\<in>set (Violations r).
             isDisposition (Disposition v) ''enforce'' \<noteq> isDisposition (Disposition v) ''report-only''"
  shows "mset (concat (map (\<lambda>r. keepDisposition ''enforce'' (Violations r)) results))
       + mset (concat (map (\<lambda>r. keepDisposition ''report-only'' (Violations r)) results))
       = mset (concat (map Violations results))"
  using assms
proof (induction results)
  case Nil
  then show ?case by simp
next
  case (Cons r rs)
  have a: "mset (keepDisposition ''enforce'' (Violations r))
      + mset (keepDisposition ''report-only'' (Violations r)) = mset (Violations r)"
    using Cons.prems by (intro keep_partition) simp
  have b: "mset (concat (map (\<lambda>r. keepDisposition ''enforce'' (Violations r)) rs))
       + mset (concat (map (\<lambda>r. keepDisposition ''report-only'' (Violations r)) rs))
       = mset (concat (map Violations rs))"
    using Cons by simp
  show ?case
    unfolding list.map concat.simps mset_append a[symmetric] b[symmetric]
    by (simp add: ac_simps)
qed

text \<open>
  Claim C4. For every list of page results in which the disposition of every violation,
  trimmed and lower-cased, is empty, \<open>enforce\<close> or \<open>report-only\<close>, each violation
  is kept by exactly one of the two filters: \<open>isDisposition d "enforce"\<close> and
  \<open>isDisposition d "report-only"\<close> never agree. Hence the violations of the pages
  kept for \<open>enforce\<close> and of the pages kept for \<open>report-only\<close> are together the
  violations of the input, each once.
\<close>

theorem disposition_filters_partition:
  assumes "\<forall>r\<in>set results. \<forall>v\<in>set (Violations r).
             toLower (trimSpace (Disposition v)) \<in> {'''', ''enforce'', ''report-only''}"
  shows "(\<forall>r\<in>set results. \<forall>v\<in>set (Violations r).
            isDisposition (Disposition v) ''enforce'' \<noteq> isDisposition (Disposition v) ''report-only'') \<and>
         mset (concat (map Violations (filterByDisposition results ''enforce'')))
           + mset (concat (map Violations (filterByDisposition results ''report-only'')))
           = mset (concat (map Violations results))"
proof -
  have p: "\<forall>r\<in>set results. \<forall>v\<in>set (Violations r).
            isDisposition (Disposition v) ''enforce'' \<noteq> isDisposition (Disposition v) ''report-only''"
    using assms isDisposition_recognized by blast
  show ?thesis
    using p pages_partition[OF p] by (simp add: mset_filterByDisposition)
qed

theorem disposition_filters_partition_witness:
  "list_all (\<lambda>r. list_all (\<lambda>v. toLower (trimSpace (Disposition v))
                     \<in> {'''', ''enforce'', ''report-only''}) (Violations r)) dispPages \<and>
   map (\<lambda>r. map (\<lambda>v. (isDisposition (Disposition v) ''enforce'',
                        isDisposition (Disposition v) ''report-only'')) (Violations r)) dispPages
     = [[(True, False), (False, True), (True, False)], [(False, True)]] \<and>
   mset (concat (map Violations (filterByDisposition dispPages ''enforce'')))
     + mset (concat (map Violations (filterByDisposition dispPages ''report-only'')))
     = mset (concat (map Violations dispPages))"
proof -
  have h: "\<forall>r\<in>set dispPages. \<forall>v\<in>set (Violations r).
             toLower (trimSpace (Disposition v)) \<in> {'''', ''enforce'', ''report-only''}"
    by (simp add: dispPages_def eval_defs multi_defs)
  have e: "map (\<lambda>r. map (\<lambda>v. (isDisposition (Disposition v) ''enforce'',
                        isDisposition (Disposition v) ''report-only'')) (Violations r)) dispPages
     = [[(True, False), (False, True), (True, False)], [(False, True)]]"
    by (simp add: dispPages_def eval_defs multi_defs)
  show ?thesis
    using disposition_filters_partition [OF h] h e by (simp add: list_all_iff)
qed

section \<open>Properties of \<open>parseConfig\<close>\<close>

lemma default_strings:
  "UserAgent defaultConfig \<noteq> ''''" "AcceptLanguage defaultConfig \<noteq> ''''"
  "WaitUntil defaultConfig \<noteq> ''''"
  by (simp_all add: defaultConfig_def)

lemma default_numbers:
  "NavTimeoutMs defaultConfig = 45000" "Concurrency defaultConfig = 1"
  "SettleWaitMs defaultConfig = 3000" "BetweenURLMs defaultConfig = 600"
  by (simp_all add: defaultConfig_def)

lemma repairConfig_valid:
  "0 < NavTimeoutMs (repairConfig c)" "0 < Concurrency (repairConfig c)"
  "0 \<le> SettleWaitMs (repairConfig c)" "0 \<le> BetweenURLMs (repairConfig c)"
  "WaitUntil (repairConfig c) \<noteq> ''''" "UserAgent (repairConfig c) \<noteq> ''''"
  "AcceptLanguage (repairConfig c) \<noteq> ''''"
  by (simp_all add: repairConfig_def default_strings)

lemma repairConfig_fields:
  "NavTimeoutMs (repairConfig c) = (if NavTimeoutMs c \<le> 0 then 30000 else NavTimeoutMs c)"
  "Concurrency (repairConfig c) = (if Concurrency c \<le> 0 then 1 else Concurrency c)"
  "SettleWaitMs (repairConfig c) = (if SettleWaitMs c < 0 then 0 else SettleWaitMs c)"
  "BetweenURLMs (repairConfig c) = (if BetweenURLMs c < 0 then 0 else BetweenURLMs c)"
  "WaitUntil (repairConfig c) = (if WaitUntil c = '''' then ''domcontentloaded'' else WaitUntil c)"
  "UserAgent (repairConfig c) = (if UserAgent c = '''' then UserAgent defaultConfig else UserAgent c)"
  "AcceptLanguage (repairConfig c)
     = (if AcceptLanguage c = '''' then AcceptLanguage defaultConfig else AcceptLanguage c)"
  by (simp_all add: repairConfig_def)

lemma unmarshalInto_fields:
  "NavTimeoutMs (unmarshalInto j c) = (case jsonNavTimeoutMs j of None \<Rightarrow> NavTimeoutMs c | Some n \<Rightarrow> n)"
  "Concurrency (unmarshalInto j c) = (case jsonConcurrency j of None \<Rightarrow> Concurrency c | Some n \<Rightarrow> n)"
  "SettleWaitMs (unmarshalInto j c) = (case jsonSettleWaitMs j of None \<Rightarrow> SettleWaitMs c | Some n \<Rightarrow> n)"
  "BetweenURLMs (unmarshalInto j c) = (case jsonBetweenUrlMs j of None \<Rightarrow> BetweenURLMs c | Some n \<Rightarrow> n)"
  "WaitUntil (unmarshalInto j c) = (case jsonWaitUntil j of None \<Rightarrow> WaitUntil c | Some s \<Rightarrow> s)"
  "UserAgent (unmarshalInto j c) = (case jsonUserAgent j of None \<Rightarrow> UserAgent c | Some s \<Rightarrow> s)"
  "AcceptLanguage (unmarshalInto j c)
     = (case jsonAcceptLanguage j of None \<Rightarrow> AcceptLanguage c | Some s \<Rightarrow> s)"
  by (simp_all add: unmarshalInto_def orKeep_def split: option.splits)

lemma default_waitUntil: "WaitUntil defaultConfig = ''networkidle''"
  by (simp add: defaultConfig_def)

text \<open>
  Claim C8, as the code has it. For every stored configuration text that decodes as
  JSON, \<open>parseConfig\<close> repairs invalid values instead of carrying them through, with
  fixed repair values that are not always the defaults. Field by field: a member that
  is missing gets the value of \<open>defaultConfig\<close> (45000, 1, 3000, 600,
  \<open>networkidle\<close>, the default user agent and language); a \<open>navTimeoutMs\<close> that is
  zero or negative becomes 30000; a non-positive \<open>concurrency\<close> becomes 1; a negative
  \<open>settleWaitMs\<close> or \<open>betweenUrlMs\<close> becomes 0; an empty \<open>waitUntil\<close> becomes
  \<open>domcontentloaded\<close>; an empty \<open>userAgent\<close> or \<open>acceptLanguage\<close> becomes the value
  of \<open>defaultConfig\<close>; every other value is kept. The result is always usable:
  positive timeout and concurrency, non-negative waits, non-empty strings.
\<close>

theorem parseConfig_repairs:
  assumes "trimSpace raw \<noteq> ''''" and "decode raw = Some j"
  shows "\<exists>cfg. parseConfig decode raw = Inr cfg \<and>
           NavTimeoutMs cfg
             = (case jsonNavTimeoutMs j of
                  None \<Rightarrow> 45000 | Some n \<Rightarrow> if n \<le> 0 then 30000 else n) \<and>
           Concurrency cfg
             = (case jsonConcurrency j of None \<Rightarrow> 1 | Some n \<Rightarrow> if n \<le> 0 then 1 else n) \<and>
           SettleWaitMs cfg
             = (case jsonSettleWaitMs j of None \<Rightarrow> 3000 | Some n \<Rightarrow> if n < 0 then 0 else n) \<and>
           BetweenURLMs cfg
             = (case jsonBetweenUrlMs j of None \<Rightarrow> 600 | Some n \<Rightarrow> if n < 0 then 0 else n) \<and>
           WaitUntil cfg
             = (case jsonWaitUntil j of
                  None \<Rightarrow> ''networkidle''
                | Some s \<Rightarrow> if s = '''' then ''domcontentloaded'' else s) \<and>
           UserAgent cfg
             = (case jsonUserAgent j of
                  None \<Rightarrow> UserAgent defaultConfig
                | Some s \<Rightarrow> if s = '''' then UserAgent defaultConfig else s) \<and>
           AcceptLanguage cfg
             = (case jsonAcceptLanguage j of
                  None \<Rightarrow> AcceptLanguage defaultConfig
                | Some s \<Rightarrow> if s = '''' then AcceptLanguage defaultConfig else s) \<and>
           0 < NavTimeoutMs cfg \<and> 0 < Concurrency cfg \<and> 0 \<le> SettleWaitMs cfg \<and>
           0 \<le> BetweenURLMs cfg \<and> WaitUntil cfg \<noteq> '''' \<and> UserAgent cfg \<noteq> '''' \<and>
           AcceptLanguage cfg \<noteq> ''''"
proof -
  define c where "c = unmarshalInto j defaultConfig"
  have p: "parseConfig decode raw = Inr (repairConfig c)"
    using assms by (simp add: parseConfig_def c_def)
  have n: "NavTimeoutMs (repairConfig c)
      = (case jsonNavTimeoutMs j of None \<Rightarrow> 45000 | Some n \<Rightarrow> if n \<le> 0 then 30000 else n)"
    by (simp add: c_def repairConfig_fields unmarshalInto_fields default_numbers
        split: option.splits)
  have k: "Concurrency (repairConfig c)
      = (case jsonConcurrency j of None \<Rightarrow> 1 | Some n \<Rightarrow> if n \<le> 0 then 1 else n)"
    by (simp add: c_def repairConfig_fields unmarshalInto_fields default_numbers
        split: option.splits)
  have s: "SettleWaitMs (repairConfig c)
      = (case jsonSettleWaitMs j of None \<Rightarrow> 3000 | Some n \<Rightarrow> if n < 0 then 0 else n)"
    by (simp add: c_def repairConfig_fields unmarshalInto_fields default_numbers
        split: option.splits)
  have b: "BetweenURLMs (repairConfig c)
      = (case jsonBetweenUrlMs j of None \<Rightarrow> 600 | Some n \<Rightarrow> if n < 0 then 0 else n)"
    by (simp add: c_def repairConfig_fields unmarshalInto_fields default_numbers
        split: option.splits)
  have w: "WaitUntil (repairConfig c)
      = (case jsonWaitUntil j of
           None \<Rightarrow> ''networkidle'' | Some s \<Rightarrow> if s = '''' then ''domcontentloaded'' else s)"
    by (simp add: c_def repairConfig_fields unmarshalInto_fields default_waitUntil
        split: option.splits)
  have u: "UserAgent (repairConfig c)
      = (case jsonUserAgent j of
           None \<Rightarrow> UserAgent defaultConfig
         | Some s \<Rightarrow> if s = '''' then UserAgent defaultConfig else s)"
    by (simp add: c_def repairConfig_fields unmarshalInto_fields split: option.splits)
  have a: "AcceptLanguage (repairConfig c)
      = (case jsonAcceptLanguage j of
           None \<Rightarrow> AcceptLanguage defaultConfig
         | Some s \<Rightarrow> if s = '''' then AcceptLanguage defaultConfig else s)"
    by (simp add: c_def repairConfig_fields unmarshalInto_fields split: option.splits)
  show ?thesis
    using p n k s b w u a repairConfig_valid[of c] by blast
qed

theorem parseConfig_repairs_witness:
  \<open>trimSpace invalidProfileJSON \<noteq> '''' \<and>
   sampleDecode invalidProfileJSON
     = Some (noMembers\<lparr>jsonWaitUntil := Some '''', jsonNavTimeoutMs := Some 0,
             jsonSettleWaitMs := Some (- 1), jsonConcurrency := Some 0,
             jsonBetweenUrlMs := Some (- 7), jsonUserAgent := Some '''',
             jsonAcceptLanguage := Some ''''\<rparr>) \<and>
   (\<exists>cfg. parseConfig sampleDecode invalidProfileJSON = Inr cfg \<and>
      NavTimeoutMs cfg = 30000 \<and> Concurrency cfg = 1 \<and> SettleWaitMs cfg = 0 \<and>
      BetweenURLMs cfg = 0 \<and> WaitUntil cfg = ''domcontentloaded'' \<and>
      UserAgent cfg = UserAgent defaultConfig \<and> AcceptLanguage cfg = AcceptLanguage defaultConfig) \<and>
   trimSpace validProfileJSON \<noteq> '''' \<and>
   (\<exists>cfg. parseConfig sampleDecode validProfileJSON = Inr cfg \<and>
      NavTimeoutMs cfg = 1000 \<and> Concurrency cfg = 1 \<and> SettleWaitMs cfg = 0 \<and>
      BetweenURLMs cfg = 600 \<and> WaitUntil cfg = ''load'')\<close>
proof -
  let ?raw = invalidProfileJSON
  let ?j = "noMembers\<lparr>jsonWaitUntil := Some '''', jsonNavTimeoutMs := Some 0,
             jsonSettleWaitMs := Some (- 1), jsonConcurrency := Some 0,
             jsonBetweenUrlMs := Some (- 7), jsonUserAgent := Some '''',
             jsonAcceptLanguage := Some ''''\<rparr>"
  let ?k = "noMembers\<lparr>jsonWaitUntil := Some ''load'', jsonNavTimeoutMs := Some 1000,
             jsonSettleWaitMs := Some 0\<rparr>"
  have h1: "trimSpace ?raw \<noteq> ''''"
    by (simp add: invalidProfileJSON_def trimSpace_def isSpace_def)
  have h2: "sampleDecode ?raw = Some ?j"
    by (simp add: sampleDecode_def invalidProfileJSON_def validProfileJSON_def)
  have g1: "trimSpace validProfileJSON \<noteq> ''''"
    by (simp add: validProfileJSON_def trimSpace_def isSpace_def)
  have g2: "sampleDecode validProfileJSON = Some ?k"
    by (simp add: sampleDecode_def validProfileJSON_def invalidProfileJSON_def)
  have m: "jsonNavTimeoutMs ?j = Some 0" "jsonConcurrency ?j = Some 0"
    "jsonSettleWaitMs ?j = Some (- 1)" "jsonBetweenUrlMs ?j = Some (- 7)"
    "jsonWaitUntil ?j = Some ''''" "jsonUserAgent ?j = Some ''''"
    "jsonAcceptLanguage ?j = Some ''''"
    by (simp_all add: noMembers_def)
  have m': "jsonNavTimeoutMs ?k = Some 1000" "jsonConcurrency ?k = None"
    "jsonSettleWaitMs ?k = Some 0" "jsonBetweenUrlMs ?k = None"
    "jsonWaitUntil ?k = Some ''load''"
    by (simp_all add: noMembers_def)
  have A: "\<exists>cfg. parseConfig sampleDecode ?raw = Inr cfg \<and>
      NavTimeoutMs cfg = 30000 \<and> Concurrency cfg = 1 \<and> SettleWaitMs cfg = 0 \<and>
      BetweenURLMs cfg = 0 \<and> WaitUntil cfg = ''domcontentloaded'' \<and>
      UserAgent cfg = UserAgent defaultConfig \<and> AcceptLanguage cfg = AcceptLanguage defaultConfig"
    using parseConfig_repairs [where decode = sampleDecode and raw = ?raw, OF h1 h2]
    unfolding m by (simp only: option.case if_True if_False, simp) blast
  have B: "\<exists>cfg. parseConfig sampleDecode validProfileJSON = Inr cfg \<and>
      NavTimeoutMs cfg = 1000 \<and> Concurrency cfg = 1 \<and> SettleWaitMs cfg = 0 \<and>
      BetweenURLMs cfg = 600 \<and> WaitUntil cfg = ''load''"
    using parseConfig_repairs [where decode = sampleDecode and raw = validProfileJSON, OF g1 g2]
    unfolding m' by (simp only: option.case, simp) blast
  show ?thesis using h1 h2 g1 A B by blast
qed

text \<open>
  Claim C8 as stated says that an invalid value falls back to the default. For four
  fields the repair value is another constant: \<open>navTimeoutMs = -5\<close> gives 30000 while
  the default is 45000 (and a missing \<open>settleWaitMs\<close> in the same text gets its default
  3000); a negative \<open>settleWaitMs\<close> or \<open>betweenUrlMs\<close> gives 0 while the defaults
  are 3000 and 600; an empty \<open>waitUntil\<close> gives \<open>domcontentloaded\<close> while the default
  is \<open>networkidle\<close>.
\<close>

theorem parseConfig_repair_values_differ_from_defaults:
  \<open>NavTimeoutMs (projr (parseConfig sampleDecode ''{"navTimeoutMs": -5}'')) = 30000 \<and>
   NavTimeoutMs defaultConfig = 45000 \<and>
   SettleWaitMs (projr (parseConfig sampleDecode ''{"navTimeoutMs": -5}'')) = 3000 \<and>
   SettleWaitMs (projr (parseConfig sampleDecode invalidProfileJSON)) = 0 \<and>
   SettleWaitMs defaultConfig = 3000 \<and>
   BetweenURLMs (projr (parseConfig sampleDecode invalidProfileJSON)) = 0 \<and>
   BetweenURLMs defaultConfig = 600 \<and>
   WaitUntil (projr (parseConfig sampleDecode invalidProfileJSON)) = ''domcontentloaded'' \<and>
   WaitUntil defaultConfig = ''networkidle''\<close>
  by (simp add: parseConfig_def sampleDecode_def invalidProfileJSON_def validProfileJSON_def
      repairConfig_def
      unmarshalInto_def orKeep_def noMembers_def defaultConfig_def trimSpace_def isSpace_def)

lemmas url_defs = parseURLList_def parseURLLine_def normalizeURL_def trimSpace_def isSpace_def
  hasPrefix_def Let_def

section \<open>Properties of \<open>parseURLList\<close>\<close>

lemma splitLines_scenarioB:
  "splitLines scenarioB
     = [''# comment'', ''https://example.org'', ''ftp://example.org'', '''', ''not-a-url'']"
  by (simp add: scenarioB_def)

text \<open>
  Claim C9. On the five lines \<open># comment\<close>, \<open>https://example.org\<close>,
  \<open>ftp://example.org\<close>, the empty line and \<open>not-a-url\<close>, \<open>parseURLList\<close> returns
  exactly one URL, \<open>https://example.org/\<close>. The comment, the blank line and the two
  lines without an \<open>http://\<close> or \<open>https://\<close> prefix are dropped before the URL
  library is called; the accepted URL has an empty path, which \<open>normalizeURL\<close> sets
  to \<open>/\<close>. The hypotheses state what \<open>net/url\<close> does on this one URL: it parses
  with a scheme, a host and an empty path, and prints with the path \<open>/\<close> as
  \<open>https://example.org/\<close>.
\<close>

theorem parseURLList_scenario_B:
  assumes "urlParse ''https://example.org'' = Some u"
    and "Scheme u \<noteq> ''''" and "Host u \<noteq> ''''" and "Path u = ''''"
    and "urlString (u\<lparr>Path := ''/''\<rparr>) = ''https://example.org/''"
  shows "parseURLList urlParse urlString scenarioB = [''https://example.org/'']"
proof -
  have 1: "parseURLLine urlParse urlString ''# comment'' = None"
    by (simp add: url_defs)
  have 2: "parseURLLine urlParse urlString ''https://example.org'' = Some ''https://example.org/''"
    using assms by (simp add: url_defs)
  have 3: "parseURLLine urlParse urlString ''ftp://example.org'' = None"
    by (simp add: url_defs)
  have 4: "parseURLLine urlParse urlString '''' = None"
    by (simp add: url_defs)
  have 5: "parseURLLine urlParse urlString ''not-a-url'' = None"
    by (simp add: url_defs)
  show ?thesis
    unfolding parseURLList_def splitLines_scenarioB by (simp add: 1 2 3 4 5)
qed

theorem parseURLList_scenario_B_witness:
  "plainParse ''https://example.org''
     = Some \<lparr>Scheme = ''https'', Opaque = '''', User = None, Host = ''example.org'',
             Path = '''', RawPath = '''', OmitHost = False, ForceQuery = False,
             RawQuery = '''', Fragment = '''', RawFragment = ''''\<rparr> \<and>
   plainString \<lparr>Scheme = ''https'', Opaque = '''', User = None, Host = ''example.org'',
             Path = ''/'', RawPath = '''', OmitHost = False, ForceQuery = False,
             RawQuery = '''', Fragment = '''', RawFragment = ''''\<rparr> = ''https://example.org/'' \<and>
   parseURLList plainParse plainString scenarioB = [''https://example.org/'']"
proof -
  let ?u = "\<lparr>Scheme = ''https'', Opaque = '''', User = None, Host = ''example.org'',
             Path = '''', RawPath = '''', OmitHost = False, ForceQuery = False,
             RawQuery = '''', Fragment = '''', RawFragment = ''''\<rparr>"
  have p: "plainParse ''https://example.org'' = Some ?u"
    by (simp add: plainParse_def hasPrefix_def toLower_def toLowerChar_def Let_def)
  have s: "plainString (?u\<lparr>Path := ''/''\<rparr>) = ''https://example.org/''"
    by (simp add: plainString_def)
  have "parseURLList plainParse plainString scenarioB = [''https://example.org/'']"
    using p _ _ _ s by (rule parseURLList_scenario_B) simp_all
  then show ?thesis using p s by simp
qed

lemma dropWhile_append_stop:
  "\<not> P y \<Longrightarrow> dropWhile P (xs @ y # ys) = dropWhile P xs @ y # ys"
  by (induction xs) auto

lemma hash_not_space: "\<not> isSpace CHR ''#''"
  by (simp add: isSpace_def)

lemma trimSpace_hash:
  "trimSpace (a @ CHR ''#'' # b)
     = dropWhile isSpace a @ CHR ''#'' # rev (dropWhile isSpace (rev b))"
proof -
  have 1: "dropWhile isSpace (a @ CHR ''#'' # b) = dropWhile isSpace a @ CHR ''#'' # b"
    by (rule dropWhile_append_stop) (rule hash_not_space)
  have 2: "dropWhile isSpace (rev b @ CHR ''#'' # rev (dropWhile isSpace a))
         = dropWhile isSpace (rev b) @ CHR ''#'' # rev (dropWhile isSpace a)"
    by (rule dropWhile_append_stop) (rule hash_not_space)
  show ?thesis
    unfolding trimSpace_def 1 using 2 by simp
qed

lemma trimSpace_ltrim: "trimSpace (dropWhile isSpace a) = trimSpace a"
  by (simp add: trimSpace_def)

lemma set_trimSpace: "set (trimSpace a) \<subseteq> set a"
proof -
  have "set (trimSpace a) \<subseteq> set (dropWhile isSpace a)"
    unfolding trimSpace_def using set_dropWhileD[of _ isSpace "rev (dropWhile isSpace a)"]
    by auto
  also have "\<dots> \<subseteq> set a" using set_dropWhileD[of _ isSpace a] by auto
  finally show ?thesis .
qed

lemma indexByte_absent: "c \<notin> set xs \<Longrightarrow> indexByte xs c = None"
  by (induction xs) auto

lemma indexByte_first: "c \<notin> set xs \<Longrightarrow> indexByte (xs @ c # ys) c = Some (length xs)"
  by (induction xs) auto

lemma hasPrefix_hash: "CHR ''#'' \<notin> set l \<Longrightarrow> l \<noteq> [] \<Longrightarrow> \<not> hasPrefix (l @ r) ''#''"
  by (cases l) (auto simp: hasPrefix_def)

lemma hasPrefix_hash_absent: "CHR ''#'' \<notin> set l \<Longrightarrow> \<not> hasPrefix l ''#''"
  by (cases l) (auto simp: hasPrefix_def)

lemma hasPrefix_hash_first: "hasPrefix (CHR ''#'' # r) ''#''"
  by (simp add: hasPrefix_def)

lemma parseURLLine_no_hash:
  assumes "CHR ''#'' \<notin> set a"
  shows "parseURLLine urlParse urlString a =
     (let line = trimSpace a in
      if line = '''' then None
      else if hasPrefix line ''http://'' \<or> hasPrefix line ''https://''
           then normalizeURL urlParse urlString line else None)"
proof -
  have n: "CHR ''#'' \<notin> set (trimSpace a)" using assms set_trimSpace by blast
  have "\<not> hasPrefix (trimSpace a) ''#''" by (rule hasPrefix_hash_absent[OF n])
  then show ?thesis
    by (simp add: parseURLLine_def Let_def indexByte_absent[OF n])
qed

lemma parseURLLine_comment:
  assumes "CHR ''#'' \<notin> set a"
  shows "parseURLLine urlParse urlString (a @ CHR ''#'' # b) = parseURLLine urlParse urlString a"
proof -
  define l where "l = dropWhile isSpace a"
  define r where "r = rev (dropWhile isSpace (rev b))"
  have t: "trimSpace (a @ CHR ''#'' # b) = l @ CHR ''#'' # r"
    by (simp add: trimSpace_hash l_def r_def)
  have nl: "CHR ''#'' \<notin> set l"
    using assms set_dropWhileD[of _ isSpace a] by (auto simp: l_def)
  have ta: "trimSpace a = trimSpace l" by (simp add: l_def trimSpace_ltrim)
  show ?thesis
  proof (cases "l = []")
    case True
    then have "trimSpace a = []" using ta by (simp add: trimSpace_def)
    then have "parseURLLine urlParse urlString a = None"
      by (simp add: parseURLLine_def)
    moreover have "parseURLLine urlParse urlString (a @ CHR ''#'' # b) = None"
      unfolding parseURLLine_def t using True by (simp add: hasPrefix_hash_first)
    ultimately show ?thesis by simp
  next
    case False
    have np: "\<not> hasPrefix (l @ CHR ''#'' # r) ''#''" by (rule hasPrefix_hash[OF nl False])
    have ix: "indexByte (l @ CHR ''#'' # r) CHR ''#'' = Some (length l)"
      by (rule indexByte_first[OF nl])
    have "parseURLLine urlParse urlString (a @ CHR ''#'' # b) =
       (let line = trimSpace l in
        if line = '''' then None
        else if hasPrefix line ''http://'' \<or> hasPrefix line ''https://''
             then normalizeURL urlParse urlString line else None)"
      unfolding parseURLLine_def t using False np ix by (simp add: Let_def)
    then show ?thesis
      unfolding parseURLLine_no_hash[OF assms] ta .
  qed
qed

text \<open>
  Claim C10. \<open>parseURLList\<close> treats the first \<open>#\<close> of a line, wherever it stands, as
  the start of a comment: a line is handled as the line cut before its first \<open>#\<close>.
  So a URL with a fragment, \<open>https://example.org/page#section\<close>, is accepted without
  its fragment, as \<open>https://example.org/page\<close> (given that \<open>net/url\<close> parses and
  prints \<open>https://example.org/page\<close> as itself).
\<close>

theorem parseURLList_strips_from_first_hash:
  "parseURLLine urlParse urlString raw
     = parseURLLine urlParse urlString (takeWhile (\<lambda>c. c \<noteq> CHR ''#'') raw) \<and>
   (urlParse ''https://example.org/page'' = Some u \<and> Scheme u \<noteq> '''' \<and> Host u \<noteq> '''' \<and>
    Path u \<noteq> '''' \<and> urlString u = ''https://example.org/page''
    \<longrightarrow> parseURLList urlParse urlString ''https://example.org/page#section''
          = [''https://example.org/page''])"
proof
  let ?a = "takeWhile (\<lambda>c. c \<noteq> CHR ''#'') raw"
  have na: "CHR ''#'' \<notin> set ?a" using set_takeWhileD[of "CHR ''#''" _ raw] by blast
  show "parseURLLine urlParse urlString raw = parseURLLine urlParse urlString ?a"
  proof (cases "CHR ''#'' \<in> set raw")
    case False
    then have "\<forall>x\<in>set raw. x \<noteq> CHR ''#''" by blast
    then have eq: "?a = raw" by (simp add: takeWhile_eq_all_conv)
    show ?thesis unfolding eq by (rule refl)
  next
    case True
    then have d: "dropWhile (\<lambda>c. c \<noteq> CHR ''#'') raw \<noteq> []" by (simp add: dropWhile_eq_Nil_conv)
    then obtain x b where xb: "dropWhile (\<lambda>c. c \<noteq> CHR ''#'') raw = x # b"
      by (cases "dropWhile (\<lambda>c. c \<noteq> CHR ''#'') raw") auto
    have "\<not> (hd (dropWhile (\<lambda>c. c \<noteq> CHR ''#'') raw) \<noteq> CHR ''#'')"
      using d by (rule hd_dropWhile)
    then have "x = CHR ''#''" using xb by simp
    then have "raw = ?a @ CHR ''#'' # b"
      using takeWhile_dropWhile_id[of "\<lambda>c. c \<noteq> CHR ''#''" raw] xb by simp
    then show ?thesis using parseURLLine_comment[OF na, of urlParse urlString b] by simp
  qed
  show "urlParse ''https://example.org/page'' = Some u \<and> Scheme u \<noteq> '''' \<and> Host u \<noteq> '''' \<and>
    Path u \<noteq> '''' \<and> urlString u = ''https://example.org/page''
    \<longrightarrow> parseURLList urlParse urlString ''https://example.org/page#section''
          = [''https://example.org/page'']"
    by (simp add: url_defs)
qed

theorem parseURLList_strips_from_first_hash_witness:
  "plainParse ''https://example.org/page''
     = Some \<lparr>Scheme = ''https'', Opaque = '''', User = None, Host = ''example.org'',
             Path = ''/page'', RawPath = '''', OmitHost = False, ForceQuery = False,
             RawQuery = '''', Fragment = '''', RawFragment = ''''\<rparr> \<and>
   plainString \<lparr>Scheme = ''https'', Opaque = '''', User = None, Host = ''example.org'',
             Path = ''/page'', RawPath = '''', OmitHost = False, ForceQuery = False,
             RawQuery = '''', Fragment = '''', RawFragment = ''''\<rparr> = ''https://example.org/page'' \<and>
   parseURLLine plainParse plainString ''  https://example.org/space  # trailing comment''
     = parseURLLine plainParse plainString ''  https://example.org/space  '' \<and>
   parseURLList plainParse plainString ''https://example.org/page#section''
     = [''https://example.org/page'']"
proof -
  let ?u = "\<lparr>Scheme = ''https'', Opaque = '''', User = None, Host = ''example.org'',
             Path = ''/page'', RawPath = '''', OmitHost = False, ForceQuery = False,
             RawQuery = '''', Fragment = '''', RawFragment = ''''\<rparr>"
  have p: "plainParse ''https://example.org/page'' = Some ?u"
    by (simp add: plainParse_def hasPrefix_def toLower_def toLowerChar_def Let_def)
  have s: "plainString ?u = ''https://example.org/page''"
    by (simp add: plainString_def)
  have h: "plainParse ''https://example.org/page'' = Some ?u \<and> Scheme ?u \<noteq> '''' \<and>
      Host ?u \<noteq> '''' \<and> Path ?u \<noteq> '''' \<and> plainString ?u = ''https://example.org/page''"
    using p s by simp
  from parseURLList_strips_from_first_hash
         [of plainParse plainString "''  https://example.org/space  # trailing comment''" ?u]
  have "parseURLLine plainParse plainString ''  https://example.org/space  # trailing comment''
         = parseURLLine plainParse plainString ''  https://example.org/space  ''"
    and "parseURLList plainParse plainString ''https://example.org/page#section''
          = [''https://example.org/page'']"
    using h by simp_all
  then show ?thesis using p s by simp
qed

section \<open>Properties of \<open>runCSPCheck\<close>\<close>

lemma runBrowsers_step:
  assumes "\<not> probeFails (pr b)" and "decoded (pr b) = Some rep"
  shows "runBrowsers pr (b # bs) reports m
       = runBrowsers pr bs (AList.update b rep reports) (max (engineExit (pr b)) m)"
proof -
  have f: "\<not> pipeFails (pr b)" "\<not> startFails (pr b)" "\<not> readFails (pr b)"
    using assms(1) by (simp_all add: probeFails_def)
  have m: "(if engineExit (pr b) > m then engineExit (pr b) else m) = max (engineExit (pr b)) m"
    by (simp add: max_def)
  show ?thesis
  proof (cases "waitErr (pr b) = None")
    case True
    then show ?thesis using f assms(2) m by (simp add: Let_def engineExit_def)
  next
    case False
    then have "\<not> statFails (pr b)" using assms(1) by (simp add: probeFails_def)
    then show ?thesis using f assms(2) m by (simp add: Let_def engineExit_def)
  qed
qed

lemma runBrowsers_fail:
  assumes "probeFails (pr b)"
  shows "isl (runBrowsers pr (b # bs) reports m)"
  using assms unfolding probeFails_def
  by (elim disjE conjE; simp add: Let_def split: option.splits)

lemma runBrowsers_error_iff:
  "isl (runBrowsers pr bs reports m) \<longleftrightarrow> (\<exists>b\<in>set bs. probeFails (pr b))"
proof (induction bs arbitrary: reports m)
  case Nil
  then show ?case by simp
next
  case (Cons b bs)
  show ?case
  proof (cases "probeFails (pr b)")
    case True
    then show ?thesis using runBrowsers_fail[of pr b bs reports m] by simp
  next
    case False
    then obtain rep where rep: "decoded (pr b) = Some rep"
      by (auto simp: probeFails_def)
    show ?thesis
      unfolding runBrowsers_step[of pr b, OF False rep] using Cons.IH False by simp
  qed
qed

lemma runBrowsers_exit_fold:
  "runBrowsers pr bs reports m = Inr (rs, code) \<Longrightarrow>
   code = fold max (map (\<lambda>b. engineExit (pr b)) bs) m"
proof (induction bs arbitrary: reports m)
  case Nil
  then show ?case by simp
next
  case (Cons b bs)
  have nf: "\<not> probeFails (pr b)"
  proof
    assume "probeFails (pr b)"
    then have "isl (runBrowsers pr (b # bs) reports m)"
      unfolding runBrowsers_error_iff by simp
    then show False using Cons.prems by simp
  qed
  then obtain rep where rep: "decoded (pr b) = Some rep"
    by (auto simp: probeFails_def)
  have "runBrowsers pr (b # bs) reports m
      = runBrowsers pr bs (AList.update b rep reports) (max (engineExit (pr b)) m)"
    by (rule runBrowsers_step[of pr b, OF nf rep])
  then have "runBrowsers pr bs (AList.update b rep reports) (max (engineExit (pr b)) m)
      = Inr (rs, code)"
    using Cons.prems by simp
  then have "code = fold max (map (\<lambda>b. engineExit (pr b)) bs) (max (engineExit (pr b)) m)"
    by (rule Cons.IH)
  then show ?case by simp
qed

lemma runBrowsers_exit:
  assumes "runBrowsers pr bs reports m = Inr (rs, code)"
  shows "code = Max (insert m ((\<lambda>b. engineExit (pr b)) ` set bs))"
proof -
  have "code = fold max (map (\<lambda>b. engineExit (pr b)) bs) m"
    using assms by (rule runBrowsers_exit_fold)
  also have "\<dots> = Max (set (m # map (\<lambda>b. engineExit (pr b)) bs))"
    by (rule Max.set_eq_fold[symmetric])
  finally show ?thesis by simp
qed

lemma hardFailure_probeFails: "hardFailure out \<Longrightarrow> probeFails out"
  by (auto simp: hardFailure_def probeFails_def)

lemma runCSPCheck_isl:
  "isl (runCSPCheck w urls cfg) \<longleftrightarrow>
     mkdirFails w \<or> writeFails w \<or> (\<exists>b\<in>set browsers. probeFails (probe w b))"
proof -
  have "isl (runCSPCheck w urls cfg) \<longleftrightarrow>
     mkdirFails w \<or> writeFails w \<or> isl (runBrowsers (probe w) browsers [] 0)"
    by (cases "runBrowsers (probe w) browsers [] 0")
       (auto simp: runCSPCheck_def split: prod.splits)
  then show ?thesis by (simp add: runBrowsers_error_iff)
qed

lemma runCSPCheck_Inr:
  assumes "runCSPCheck w urls cfg = Inr (multi, code)"
  shows "code = Max (insert 0 ((\<lambda>b. engineExit (probe w b)) ` set browsers))"
proof -
  from assms obtain reports where "runBrowsers (probe w) browsers [] 0 = Inr (reports, code)"
    by (auto simp: runCSPCheck_def split: if_splits sum.splits prod.splits)
  then show ?thesis by (rule runBrowsers_exit)
qed

text \<open>
  Claim C2, as the code has it. \<open>runCSPCheck\<close> returns an error exactly when the
  workspace or the URL file cannot be written, or, for some engine, the stderr pipe or
  the start of the probe fails, the probe ends with an error while no output file is
  present, or the output file cannot be read or decoded. A hard failure of some engine
  (no start, or an error exit without output file) therefore gives an error. When
  \<open>runCSPCheck\<close> returns without error and no engine's exit code is negative, the
  returned exit code is the maximum of the engines' exit codes, and it is zero only if
  every engine exited zero.
\<close>

theorem runCSPCheck_error_policy:
  "(isl (runCSPCheck w urls cfg) \<longleftrightarrow>
      mkdirFails w \<or> writeFails w \<or> (\<exists>b\<in>set browsers. probeFails (probe w b))) \<and>
   ((\<exists>b\<in>set browsers. hardFailure (probe w b)) \<longrightarrow> isl (runCSPCheck w urls cfg)) \<and>
   (\<forall>multi code.
      runCSPCheck w urls cfg = Inr (multi, code) \<and>
      (\<forall>b\<in>set browsers. 0 \<le> engineExit (probe w b)) \<longrightarrow>
        code = Max ((\<lambda>b. engineExit (probe w b)) ` set browsers) \<and>
        (code = 0 \<longrightarrow> (\<forall>b\<in>set browsers. engineExit (probe w b) = 0)))"
proof (intro conjI allI impI)
  show "isl (runCSPCheck w urls cfg) \<longleftrightarrow>
      mkdirFails w \<or> writeFails w \<or> (\<exists>b\<in>set browsers. probeFails (probe w b))"
    by (rule runCSPCheck_isl)
next
  assume "\<exists>b\<in>set browsers. hardFailure (probe w b)"
  then have "\<exists>b\<in>set browsers. probeFails (probe w b)"
    using hardFailure_probeFails by blast
  then show "isl (runCSPCheck w urls cfg)" by (simp add: runCSPCheck_isl)
next
  fix multi code
  assume a: "runCSPCheck w urls cfg = Inr (multi, code) \<and>
      (\<forall>b\<in>set browsers. 0 \<le> engineExit (probe w b))"
  let ?S = "(\<lambda>b. engineExit (probe w b)) ` set browsers"
  have fin: "finite ?S" and ne: "?S \<noteq> {}" by (simp_all add: browsers_def)
  have c: "code = Max (insert 0 ?S)" using a runCSPCheck_Inr by blast
  have nonneg: "\<forall>x\<in>?S. 0 \<le> x" using a by auto
  have el: "engineExit (probe w ''chromium'') \<in> ?S" by (simp add: browsers_def)
  then have "engineExit (probe w ''chromium'') \<le> Max ?S" using fin by (rule Max_ge[rotated])
  moreover have "0 \<le> engineExit (probe w ''chromium'')" using nonneg el by blast
  ultimately have "0 \<le> Max ?S" by simp
  then have "Max (insert 0 ?S) = Max ?S" using fin ne by (simp add: max_def)
  with c show m: "code = Max ?S" by simp
  assume z: "code = 0"
  show "\<forall>b\<in>set browsers. engineExit (probe w b) = 0"
  proof
    fix b assume b: "b \<in> set browsers"
    then have "engineExit (probe w b) \<le> Max ?S" using fin by (simp add: Max_ge)
    moreover have "0 \<le> engineExit (probe w b)" using a b by blast
    ultimately show "engineExit (probe w b) = 0" using m z by simp
  qed
qed

lemmas run_defs = runCSPCheck_def browsers_def sampleWorld_def cleanProbe_def
  exitCodeFromState_def exitCodeFromErr_def engineExit_def hardFailure_def Let_def

theorem runCSPCheck_error_policy_witness:
  "\<not> isl (runCSPCheck softWorld [''https://example.org/''] defaultConfig) \<and>
   map (\<lambda>b. engineExit (probe softWorld b)) browsers = [0, 1, 0] \<and>
   snd (projr (runCSPCheck softWorld [''https://example.org/''] defaultConfig)) = 1 \<and>
   snd (projr (runCSPCheck softWorld [''https://example.org/''] defaultConfig))
     = Max ((\<lambda>b. engineExit (probe softWorld b)) ` set browsers) \<and>
   hardFailure (probe startFailWorld ''webkit'') \<and>
   isl (runCSPCheck startFailWorld [''https://example.org/''] defaultConfig)"
proof -
  let ?r = "runCSPCheck softWorld [''https://example.org/''] defaultConfig"
  have ok: "\<not> isl ?r" by (simp add: run_defs softWorld_def)
  have codes: "map (\<lambda>b. engineExit (probe softWorld b)) browsers = [0, 1, 0]"
    by (simp add: run_defs softWorld_def)
  have one: "snd (projr ?r) = 1" by (simp add: run_defs softWorld_def)
  have r: "?r = Inr (fst (projr ?r), snd (projr ?r))" using ok by (cases ?r) auto
  have nonneg: "\<forall>b\<in>set browsers. 0 \<le> engineExit (probe softWorld b)"
    by (simp add: run_defs softWorld_def)
  have mx: "snd (projr ?r) = Max ((\<lambda>b. engineExit (probe softWorld b)) ` set browsers)"
    using runCSPCheck_error_policy [of softWorld "[''https://example.org/'']" defaultConfig]
      r nonneg by blast
  have hf: "hardFailure (probe startFailWorld ''webkit'')"
    by (simp add: run_defs startFailWorld_def)
  then have "\<exists>b\<in>set browsers. hardFailure (probe startFailWorld b)"
    by (auto simp: browsers_def)
  then have "isl (runCSPCheck startFailWorld [''https://example.org/''] defaultConfig)"
    using runCSPCheck_error_policy [of startFailWorld "[''https://example.org/'']" defaultConfig]
    by blast
  then show ?thesis using ok codes one mx hf by simp
qed

text \<open>
  Claim C2 as stated fails in the direction ``an error only for a hard failure'': when
  every probe exits zero without writing its report, no engine fails to start and none
  exits non-zero, yet \<open>os.ReadFile\<close> fails and \<open>runCSPCheck\<close> returns that error.
  The exit code is the maximum only from zero upwards: when every probe writes its
  report and is then ended by a signal (exit code \<open>-1\<close>), the run succeeds with
  code 0.
\<close>

theorem runCSPCheck_error_without_hard_failure:
  "runCSPCheck silentWorld [''https://example.org/''] defaultConfig = Inl (ReadFileError, 0) \<and>
   browsers = [''chromium'', ''firefox'', ''webkit''] \<and>
   \<not> hardFailure (probe silentWorld ''chromium'') \<and>
   \<not> hardFailure (probe silentWorld ''firefox'') \<and>
   \<not> hardFailure (probe silentWorld ''webkit'') \<and>
   engineExit (probe silentWorld ''chromium'') = 0 \<and>
   \<not> isl (runCSPCheck killedWorld [''https://example.org/''] defaultConfig) \<and>
   snd (projr (runCSPCheck killedWorld [''https://example.org/''] defaultConfig)) = 0 \<and>
   map (\<lambda>b. engineExit (probe killedWorld b)) browsers = [- 1, - 1, - 1]"
  by (simp add: run_defs silentWorld_def killedWorld_def)

section \<open>Properties of the per-page deduplication\<close>

lemmas dedup_defs = dedupViolations_def dedupStep_def violationKey_def normalizeViolation_def
  sampleEvent_def orNull_def jsString_def jsNumber_def joinWith_def mergeViolation_def
  normalizeDisposition_def blockedOriginOf_def toLower_def toLowerChar_def hasPrefix_def Let_def

lemma set_update_distinct:
  "distinct (map fst al) \<Longrightarrow>
   set (AList.update k v al) = insert (k, v) {p \<in> set al. fst p \<noteq> k}"
proof (induction al)
  case Nil
  then show ?case by simp
next
  case (Cons p al)
  then show ?case by (cases p) (auto simp: rev_image_eqI)
qed

lemma normalizeDisposition_values:
  "normalizeDisposition d = ''enforce'' \<or> normalizeDisposition d = ''report-only'' \<or>
   normalizeDisposition d = ''''"
  by (simp add: normalizeDisposition_def Let_def)

lemma normalizeDisposition_orNull: "normalizeDisposition (orNull d) = normalizeDisposition d"
  by (cases d) (simp_all add: normalizeDisposition_def orNull_def jsString_def)

lemma disposition_normalizeViolation:
  "normalizeDisposition (disposition (normalizeViolation urlOrigin r))
     = normalizeDisposition (disposition r)"
  by (simp add: normalizeViolation_def normalizeDisposition_orNull)

lemma mergeViolation_cases: "mergeViolation a b = a \<or> mergeViolation a b = b"
  by (simp add: mergeViolation_def Let_def)

lemma dispRank_mergeViolation:
  "dispRank (mergeViolation a b) = max (dispRank a) (dispRank b)"
  using normalizeDisposition_values[of "disposition a"]
        normalizeDisposition_values[of "disposition b"]
  by (auto simp: mergeViolation_def dispRank_def Let_def)

lemma dispRank_enforce: "dispRank v = 2 \<longleftrightarrow> normalizeDisposition (disposition v) = ''enforce''"
  by (simp add: dispRank_def)

lemma dispRank_report:
  "1 \<le> dispRank v \<longleftrightarrow> normalizeDisposition (disposition v) = ''enforce'' \<or>
                          normalizeDisposition (disposition v) = ''report-only''"
  by (simp add: dispRank_def)

lemma dispRank_le_2: "dispRank v \<le> 2"
  by (simp add: dispRank_def)

lemma violationKey_tuple:
  "violationTuple a = violationTuple b \<Longrightarrow> violationKey a = violationKey b"
  by (simp add: violationTuple_def violationKey_def)

lemma uniqInv_step:
  assumes inv: "uniqInv seen uniq"
  shows "uniqInv (seen @ [v]) (dedupStep v uniq)"
proof -
  define key where "key = violationKey v"
  define v' where "v' = (case map_of uniq key of None \<Rightarrow> v | Some ex \<Rightarrow> mergeViolation ex v)"
  have step: "dedupStep v uniq = AList.update key v' uniq"
    by (simp add: dedupStep_def key_def v'_def Let_def split: option.splits)
  have d: "distinct (map fst uniq)" using inv by (simp add: uniqInv_def)
  have entries: "\<And>k e. (k, e) \<in> set uniq \<Longrightarrow>
      violationKey e = k \<and> e \<in> set seen \<and>
      (\<forall>r\<in>set seen. violationKey r = k \<longrightarrow> dispRank r \<le> dispRank e)"
    using inv by (fastforce simp: uniqInv_def list_all_iff)
  have covered: "\<And>r. r \<in> set seen \<Longrightarrow> violationKey r \<in> fst ` set uniq"
    using inv by (simp add: uniqInv_def list_all_iff)
  have s: "set (AList.update key v' uniq) = insert (key, v') {p \<in> set uniq. fst p \<noteq> key}"
    by (rule set_update_distinct[OF d])
  have new: "violationKey v' = key \<and> v' \<in> set (seen @ [v]) \<and>
      (\<forall>r\<in>set (seen @ [v]). violationKey r = key \<longrightarrow> dispRank r \<le> dispRank v')"
  proof (cases "map_of uniq key")
    case None
    then have "key \<notin> fst ` set uniq" by (simp add: map_of_eq_None_iff)
    then have "\<And>r. r \<in> set seen \<Longrightarrow> violationKey r \<noteq> key" using covered by blast
    moreover have "v' = v" using None by (simp add: v'_def)
    ultimately show ?thesis by (auto simp: key_def)
  next
    case (Some ex)
    then have ex: "(key, ex) \<in> set uniq" by (rule map_of_SomeD)
    have v': "v' = mergeViolation ex v" using Some by (simp add: v'_def)
    have exk: "violationKey ex = key" "ex \<in> set seen"
      "\<And>r. r \<in> set seen \<Longrightarrow> violationKey r = key \<Longrightarrow> dispRank r \<le> dispRank ex"
      using entries[OF ex] by auto
    have r: "dispRank v' = max (dispRank ex) (dispRank v)"
      by (simp add: v' dispRank_mergeViolation)
    have "violationKey v' = key"
      using mergeViolation_cases[of ex v] exk(1) by (auto simp: v' key_def)
    moreover have "v' \<in> set (seen @ [v])"
      using mergeViolation_cases[of ex v] exk(2) by (auto simp: v')
    moreover have "\<forall>r\<in>set (seen @ [v]). violationKey r = key \<longrightarrow> dispRank r \<le> dispRank v'"
    proof (intro ballI impI)
      fix r assume "r \<in> set (seen @ [v])" and k: "violationKey r = key"
      then consider "r = v" | "r \<in> set seen" by auto
      then show "dispRank r \<le> dispRank v'"
      proof cases
        case 1
        then show ?thesis by (simp add: r)
      next
        case 2
        then have "dispRank r \<le> dispRank ex" using exk(3) k by simp
        then show ?thesis by (simp add: r)
      qed
    qed
    ultimately show ?thesis by simp
  qed
  have old: "\<And>k e. (k, e) \<in> set uniq \<Longrightarrow> k \<noteq> key \<Longrightarrow>
      violationKey e = k \<and> e \<in> set (seen @ [v]) \<and>
      (\<forall>r\<in>set (seen @ [v]). violationKey r = k \<longrightarrow> dispRank r \<le> dispRank e)"
    using entries by (auto simp: key_def)
  have a: "distinct (map fst (AList.update key v' uniq))" by (rule distinct_update[OF d])
  have b: "\<forall>p\<in>set (AList.update key v' uniq).
      violationKey (snd p) = fst p \<and> snd p \<in> set (seen @ [v]) \<and>
      (\<forall>r\<in>set (seen @ [v]). violationKey r \<noteq> fst p \<or> dispRank r \<le> dispRank (snd p))"
  proof
    fix p assume "p \<in> set (AList.update key v' uniq)"
    then consider "p = (key, v')" | "p \<in> set uniq" "fst p \<noteq> key" unfolding s by auto
    then show "violationKey (snd p) = fst p \<and> snd p \<in> set (seen @ [v]) \<and>
      (\<forall>r\<in>set (seen @ [v]). violationKey r \<noteq> fst p \<or> dispRank r \<le> dispRank (snd p))"
    proof cases
      case 1
      then show ?thesis using new by auto
    next
      case 2
      then show ?thesis using old[of "fst p" "snd p"] by auto
    qed
  qed
  have c: "\<forall>r\<in>set (seen @ [v]). violationKey r \<in> fst ` set (AList.update key v' uniq)"
    using covered by (auto simp: dom_update key_def)
  show ?thesis
    unfolding step uniqInv_def list_all_iff using a b c by blast
qed

lemma uniqInv_fold:
  "uniqInv seen uniq \<Longrightarrow> uniqInv (seen @ vs) (fold dedupStep vs uniq)"
proof (induction vs arbitrary: seen uniq)
  case Nil
  then show ?case by simp
next
  case (Cons v vs)
  have "uniqInv ((seen @ [v]) @ vs) (fold dedupStep vs (dedupStep v uniq))"
    by (rule Cons.IH) (rule uniqInv_step[OF Cons.prems])
  then show ?case by simp
qed

lemma uniqInv_final:
  "uniqInv (map (normalizeViolation urlOrigin) events)
     (fold dedupStep (map (normalizeViolation urlOrigin) events) [])"
proof -
  have "uniqInv [] []" by (simp add: uniqInv_def)
  from uniqInv_fold[OF this, of "map (normalizeViolation urlOrigin) events"]
  show ?thesis by simp
qed

lemma distinct_map_coarser:
  assumes "distinct (map f xs)" and "\<And>x y. g x = g y \<Longrightarrow> f x = f y"
  shows "distinct (map g xs)"
  using assms(1)
proof (induction xs)
  case Nil
  then show ?case by simp
next
  case (Cons x xs)
  then have "f x \<notin> f ` set xs" and "distinct (map g xs)" by auto
  moreover have "g x \<in> g ` set xs \<Longrightarrow> f x \<in> f ` set xs"
    using assms(2) by (metis imageE image_eqI)
  ultimately show ?case by auto
qed

text \<open>
  Claim C3, as the code has it. The violations list that \<open>checkUrl\<close> returns holds no
  two entries with the same tuple (effective directive, blocked URI, source file, line,
  column). Every entry is one of the normalised events, unchanged. For every entry: if
  the disposition of some event with the entry's tuple normalises to \<open>enforce\<close>, the
  entry's disposition normalises to \<open>enforce\<close>; otherwise, if that of some such event
  normalises to \<open>report-only\<close>, the entry's normalises to \<open>report-only\<close>. Every
  event is represented: some entry has its key.
\<close>

theorem dedup_keeps_most_certain_disposition:
  "distinct (map violationTuple (dedupViolations urlOrigin events)) \<and>
   (\<forall>e\<in>set (dedupViolations urlOrigin events).
      e \<in> normalizeViolation urlOrigin ` set events \<and>
      (\<forall>r\<in>set events.
         violationTuple (normalizeViolation urlOrigin r) = violationTuple e \<and>
         normalizeDisposition (disposition r) = ''enforce''
         \<longrightarrow> normalizeDisposition (disposition e) = ''enforce'') \<and>
      ((\<forall>r\<in>set events.
          violationTuple (normalizeViolation urlOrigin r) = violationTuple e
          \<longrightarrow> normalizeDisposition (disposition r) \<noteq> ''enforce'')
       \<longrightarrow> (\<forall>r\<in>set events.
              violationTuple (normalizeViolation urlOrigin r) = violationTuple e \<and>
              normalizeDisposition (disposition r) = ''report-only''
              \<longrightarrow> normalizeDisposition (disposition e) = ''report-only''))) \<and>
   (\<forall>r\<in>set events. \<exists>e\<in>set (dedupViolations urlOrigin events).
      violationKey e = violationKey (normalizeViolation urlOrigin r))"
proof -
  define nv where "nv = normalizeViolation urlOrigin"
  define uniq where "uniq = fold dedupStep (map nv events) []"
  have out: "dedupViolations urlOrigin events = map snd uniq"
    by (simp add: dedupViolations_def uniq_def nv_def)
  have inv: "uniqInv (map nv events) uniq"
    unfolding uniq_def nv_def by (rule uniqInv_final)
  have d: "distinct (map fst uniq)" using inv by (simp add: uniqInv_def)
  have entries: "\<And>p. p \<in> set uniq \<Longrightarrow>
      violationKey (snd p) = fst p \<and> snd p \<in> nv ` set events \<and>
      (\<forall>r\<in>set events. violationKey (nv r) = fst p \<longrightarrow> dispRank (nv r) \<le> dispRank (snd p))"
    using inv by (fastforce simp: uniqInv_def list_all_iff)
  have covered: "\<And>r. r \<in> set events \<Longrightarrow> violationKey (nv r) \<in> fst ` set uniq"
    using inv by (simp add: uniqInv_def list_all_iff)
  have nd: "\<And>r. normalizeDisposition (disposition (nv r)) = normalizeDisposition (disposition r)"
    by (simp add: nv_def disposition_normalizeViolation)
  have keys: "map fst uniq = map violationKey (map snd uniq)"
    using entries by (simp add: map_eq_conv)
  have A: "distinct (map violationTuple (map snd uniq))"
  proof (rule distinct_map_coarser)
    show "distinct (map violationKey (map snd uniq))" using d keys by simp
  qed (rule violationKey_tuple)
  have B: "\<And>e r. e \<in> set (map snd uniq) \<Longrightarrow> r \<in> set events \<Longrightarrow>
      violationTuple (nv r) = violationTuple e \<Longrightarrow> dispRank (nv r) \<le> dispRank e"
  proof -
    fix e r assume e: "e \<in> set (map snd uniq)" and r: "r \<in> set events"
      and t: "violationTuple (nv r) = violationTuple e"
    from e obtain p where p: "p \<in> set uniq" "e = snd p" by auto
    have "violationKey (nv r) = fst p"
      using violationKey_tuple[OF t] entries[OF p(1)] p(2) by simp
    then show "dispRank (nv r) \<le> dispRank e" using entries[OF p(1)] r p(2) by simp
  qed
  have C: "\<And>e. e \<in> set (map snd uniq) \<Longrightarrow> e \<in> nv ` set events"
    using entries by auto
  have P1: "\<And>e r. e \<in> set (map snd uniq) \<Longrightarrow> r \<in> set events \<Longrightarrow>
      violationTuple (nv r) = violationTuple e \<Longrightarrow>
      normalizeDisposition (disposition r) = ''enforce'' \<Longrightarrow>
      normalizeDisposition (disposition e) = ''enforce''"
  proof -
    fix e r assume a: "e \<in> set (map snd uniq)" "r \<in> set events"
      "violationTuple (nv r) = violationTuple e" "normalizeDisposition (disposition r) = ''enforce''"
    have "dispRank (nv r) = 2" using a(4) nd[of r] by (simp add: dispRank_def)
    then have "2 \<le> dispRank e" using B[OF a(1,2,3)] by simp
    then have "dispRank e = 2" using dispRank_le_2[of e] by simp
    then show "normalizeDisposition (disposition e) = ''enforce''" by (simp add: dispRank_enforce)
  qed
  have P2: "\<And>e r. e \<in> set (map snd uniq) \<Longrightarrow>
      (\<forall>r\<in>set events. violationTuple (nv r) = violationTuple e
          \<longrightarrow> normalizeDisposition (disposition r) \<noteq> ''enforce'') \<Longrightarrow>
      r \<in> set events \<Longrightarrow> violationTuple (nv r) = violationTuple e \<Longrightarrow>
      normalizeDisposition (disposition r) = ''report-only'' \<Longrightarrow>
      normalizeDisposition (disposition e) = ''report-only''"
  proof -
    fix e r assume a: "e \<in> set (map snd uniq)"
      "\<forall>r\<in>set events. violationTuple (nv r) = violationTuple e
          \<longrightarrow> normalizeDisposition (disposition r) \<noteq> ''enforce''"
      "r \<in> set events" "violationTuple (nv r) = violationTuple e"
      "normalizeDisposition (disposition r) = ''report-only''"
    from C[OF a(1)] obtain r0 where r0: "r0 \<in> set events" "e = nv r0" by auto
    then have "normalizeDisposition (disposition r0) \<noteq> ''enforce''" using a(2) by simp
    then have ne: "normalizeDisposition (disposition e) \<noteq> ''enforce''" using r0 nd by simp
    have "dispRank (nv r) = 1" using a(5) nd[of r] by (simp add: dispRank_def)
    then have "1 \<le> dispRank e" using B[OF a(1,3,4)] by simp
    then show "normalizeDisposition (disposition e) = ''report-only''"
      using ne dispRank_report[of e] by blast
  qed
  have P3: "\<And>r. r \<in> set events \<Longrightarrow> \<exists>e\<in>set (map snd uniq). violationKey e = violationKey (nv r)"
  proof -
    fix r assume "r \<in> set events"
    then obtain p where p: "p \<in> set uniq" "fst p = violationKey (nv r)"
      using covered by (metis imageE)
    then have "snd p \<in> set (map snd uniq)" "violationKey (snd p) = violationKey (nv r)"
      using entries[OF p(1)] by auto
    then show "\<exists>e\<in>set (map snd uniq). violationKey e = violationKey (nv r)" by blast
  qed
  show ?thesis
    unfolding out nv_def[symmetric]
    using A C P1 P2 P3 by blast
qed

theorem dedup_keeps_most_certain_disposition_witness:
  "dedupViolations (\<lambda>u. None) mixedEvents
     = [normalizeViolation (\<lambda>u. None) (sampleEvent ''https://cdn.example/a.png'' ''enforce''),
        normalizeViolation (\<lambda>u. None) (sampleEvent ''https://cdn.example/b.png'' ''report'')] \<and>
   map (\<lambda>e. normalizeDisposition (disposition e)) (dedupViolations (\<lambda>u. None) mixedEvents)
     = [''enforce'', ''report-only''] \<and>
   distinct (map violationTuple (dedupViolations (\<lambda>u. None) mixedEvents))"
proof -
  have e: "dedupViolations (\<lambda>u. None) mixedEvents
     = [normalizeViolation (\<lambda>u. None) (sampleEvent ''https://cdn.example/a.png'' ''enforce''),
        normalizeViolation (\<lambda>u. None) (sampleEvent ''https://cdn.example/b.png'' ''report'')]"
    by (simp add: dedup_defs mixedEvents_def)
  have n: "map (\<lambda>e. normalizeDisposition (disposition e)) (dedupViolations (\<lambda>u. None) mixedEvents)
     = [''enforce'', ''report-only'']"
    unfolding e by (simp add: dedup_defs)
  show ?thesis
    using dedup_keeps_most_certain_disposition [of "\<lambda>u. None" mixedEvents] e n by blast
qed

text \<open>
  Claim C3 as stated says that the retained disposition \<^emph>\<open>is\<close> \<open>enforce\<close> or
  \<open>report-only\<close>. \<open>mergeViolation\<close> returns one of its two records as it is, so the
  retained string is the event's own: an event with the disposition \<open>report\<close> (which
  normalises to \<open>report-only\<close>) is retained with \<open>report\<close>, and \<open>ENFORCE\<close> stays
  \<open>ENFORCE\<close>.
\<close>

theorem dedup_keeps_raw_disposition:
  "normalizeDisposition (disposition (sampleEvent ''https://cdn.example/a.png'' ''report''))
     = ''report-only'' \<and>
   map disposition (dedupViolations (\<lambda>u. None) [sampleEvent ''https://cdn.example/a.png'' ''report''])
     = [Some ''report''] \<and>
   normalizeDisposition (disposition (sampleEvent ''https://cdn.example/a.png'' ''ENFORCE''))
     = ''enforce'' \<and>
   map disposition (dedupViolations (\<lambda>u. None) [sampleEvent ''https://cdn.example/a.png'' ''ENFORCE''])
     = [Some ''ENFORCE'']"
  by (simp add: dedup_defs)

end
